theory Spec2Isabelle
  imports Main "HOL-Library.Sublist" "HOL-Library.Multiset"
begin

section \<open>Python values and failures\<close>

text \<open>
  The notebook \<^verbatim>\<open>DNA_seq_algorithms.ipynb\<close> is plain Python over \<^verbatim>\<open>str\<close>, \<^verbatim>\<open>int\<close>,
  \<^verbatim>\<open>list\<close>, \<^verbatim>\<open>set\<close> and \<^verbatim>\<open>dict\<close>.  Strings are \<^typ>\<open>string\<close>, Python's unbounded
  integers are \<^typ>\<open>int\<close>, and loop counters that \<^verbatim>\<open>range\<close> keeps non-negative are
  \<^typ>\<open>nat\<close>.  Every exception a function can raise is a value of \<open>error\<close>, and a
  function that can raise returns \<open>error + 'a\<close> with \<open>Inl\<close> for the exception.
\<close>

datatype error =
    KeyError
  | IndexError
  | ValueError
  | TypeError
  | ZeroDivisionError
  | Exception string

text \<open>\<^verbatim>\<open>range(n)\<close> for an integer \<open>n\<close>: empty when \<open>n \<le> 0\<close>.\<close>

definition range_py :: "int \<Rightarrow> nat list" where
  "range_py n = [0..<nat n]"

text \<open>\<^verbatim>\<open>t[k]\<close> for a non-negative index: \<^verbatim>\<open>IndexError\<close> past the end.\<close>

definition getitem :: "'a list \<Rightarrow> nat \<Rightarrow> error + 'a" where
  "getitem t k = (if k < length t then Inr (t ! k) else Inl IndexError)"

text \<open>
  A slice bound \<open>i\<close> of a sequence of length \<open>n\<close>, as Python clamps it: a negative bound
  counts from the end, and the result stays within \<open>0..n\<close>.
\<close>

definition slice_bound :: "nat \<Rightarrow> int \<Rightarrow> nat" where
  "slice_bound n i = (if i < 0 then nat (int n + i) else min (nat i) n)"

text \<open>\<^verbatim>\<open>s[lo:hi]\<close>, \<^verbatim>\<open>s[:hi]\<close> and \<^verbatim>\<open>s[lo:]\<close> (step 1).\<close>

definition slice :: "'a list \<Rightarrow> int \<Rightarrow> int \<Rightarrow> 'a list" where
  "slice s lo hi =
     (let l = slice_bound (length s) lo; h = slice_bound (length s) hi
      in take (h - l) (drop l s))"

definition slice_to :: "'a list \<Rightarrow> int \<Rightarrow> 'a list" where
  "slice_to s hi = take (slice_bound (length s) hi) s"

definition slice_from :: "'a list \<Rightarrow> int \<Rightarrow> 'a list" where
  "slice_from s lo = drop (slice_bound (length s) lo) s"

text \<open>
  \<^verbatim>\<open>t[k]\<close> for any integer index, \<^verbatim>\<open>range(lo, hi)\<close>, a \<^verbatim>\<open>for\<close> loop over a state that
  ends at the first exception of its body, and sequencing: \<open>and_then r f\<close> runs \<open>f\<close> on
  the value of \<open>r\<close> unless \<open>r\<close> raised.
\<close>

definition getitem_int :: "'a list \<Rightarrow> int \<Rightarrow> error + 'a" where
  "getitem_int t k =
     (if 0 \<le> k then getitem t (nat k)
      else if - k \<le> int (length t) then Inr (t ! nat (int (length t) + k))
      else Inl IndexError)"

definition range_from :: "int \<Rightarrow> int \<Rightarrow> int list" where
  "range_from lo hi = map (\<lambda>d. lo + int d) [0..<nat (hi - lo)]"

fun for_loop :: "'i list \<Rightarrow> ('i \<Rightarrow> 's \<Rightarrow> error + 's) \<Rightarrow> 's \<Rightarrow> error + 's" where
  "for_loop [] body s = Inr s"
| "for_loop (i # rest) body s =
     (case body i s of Inl e \<Rightarrow> Inl e | Inr s' \<Rightarrow> for_loop rest body s')"

definition and_then :: "error + 'a \<Rightarrow> ('a \<Rightarrow> error + 'b) \<Rightarrow> error + 'b" where
  "and_then r f = (case r of Inl e \<Rightarrow> Inl e | Inr v \<Rightarrow> f v)"

section \<open>Utilities\<close>

text \<open>
  \<^verbatim>\<open>
  def reverseComplement(s):
      complement = {'A': 'T', 'C': 'G', 'G': 'C', 'T': 'A', 'N': 'N'}
      t = ''
      for base in s:
          t = complement[base] + t
      return t
  \<close>
  A base outside the dictionary raises \<^verbatim>\<open>KeyError\<close>.
\<close>

definition complement :: "char \<rightharpoonup> char" where
  "complement =
     [CHR ''A'' \<mapsto> CHR ''T'', CHR ''C'' \<mapsto> CHR ''G'', CHR ''G'' \<mapsto> CHR ''C'',
      CHR ''T'' \<mapsto> CHR ''A'', CHR ''N'' \<mapsto> CHR ''N'']"

fun reverseComplement_loop :: "string \<Rightarrow> string \<Rightarrow> error + string" where
  "reverseComplement_loop [] t = Inr t"
| "reverseComplement_loop (base # s) t =
     (case complement base of
        None \<Rightarrow> Inl KeyError
      | Some c \<Rightarrow> reverseComplement_loop s (c # t))"

definition reverseComplement :: "string \<Rightarrow> error + string" where
  "reverseComplement s = reverseComplement_loop s []"

section \<open>Naive matching\<close>

text \<open>
  \<^verbatim>\<open>
  def naive_exact(p, t):
      occurrences = []
      for i in range(len(t) - len(p) + 1):
          match = True
          for j, char in enumerate(p):
              if t[i+j] != char:
                  match = False
                  break
          if match:
              occurrences.append(i)
      return occurrences
  \<close>
  The inner loop returns the value of \<^verbatim>\<open>match\<close> when it ends.
\<close>

fun naive_exact_chars :: "(nat \<times> char) list \<Rightarrow> string \<Rightarrow> nat \<Rightarrow> error + bool" where
  "naive_exact_chars [] t i = Inr True"
| "naive_exact_chars ((j, char) # rest) t i =
     (case getitem t (i + j) of
        Inl e \<Rightarrow> Inl e
      | Inr c \<Rightarrow> if c \<noteq> char then Inr False else naive_exact_chars rest t i)"

fun naive_exact_loop :: "string \<Rightarrow> string \<Rightarrow> nat list \<Rightarrow> nat list \<Rightarrow> error + nat list" where
  "naive_exact_loop p t [] occurrences = Inr occurrences"
| "naive_exact_loop p t (i # todo) occurrences =
     (case naive_exact_chars (enumerate 0 p) t i of
        Inl e \<Rightarrow> Inl e
      | Inr match \<Rightarrow>
          naive_exact_loop p t todo (if match then occurrences @ [i] else occurrences))"

definition naive_exact :: "string \<Rightarrow> string \<Rightarrow> error + nat list" where
  "naive_exact p t =
     naive_exact_loop p t (range_py (int (length t) - int (length p) + 1)) []"

text \<open>
  \<^verbatim>\<open>
  def naive_n_mm(p, t, n):
      occurrences = []
      for i in range(len(t) - len(p) + 1):
          match = True
          mm=0
          for j in range(len(p)):
              if t[i+j] != p[j]:
                  mm+=1
                  if mm>n:
                      match=False
                      break
          if match:
              occurrences.append(i)
      return occurrences
  \<close>
\<close>

fun naive_n_mm_chars :: "string \<Rightarrow> string \<Rightarrow> int \<Rightarrow> nat \<Rightarrow> nat list \<Rightarrow> int \<Rightarrow> error + bool" where
  "naive_n_mm_chars p t n i [] mm = Inr True"
| "naive_n_mm_chars p t n i (j # rest) mm =
     (case getitem t (i + j) of
        Inl e \<Rightarrow> Inl e
      | Inr c \<Rightarrow>
          (case getitem p j of
             Inl e \<Rightarrow> Inl e
           | Inr d \<Rightarrow>
               if c \<noteq> d then
                 (if mm + 1 > n then Inr False else naive_n_mm_chars p t n i rest (mm + 1))
               else naive_n_mm_chars p t n i rest mm))"

fun naive_n_mm_loop :: "string \<Rightarrow> string \<Rightarrow> int \<Rightarrow> nat list \<Rightarrow> nat list \<Rightarrow> error + nat list" where
  "naive_n_mm_loop p t n [] occurrences = Inr occurrences"
| "naive_n_mm_loop p t n (i # todo) occurrences =
     (case naive_n_mm_chars p t n i (range_py (int (length p))) 0 of
        Inl e \<Rightarrow> Inl e
      | Inr match \<Rightarrow>
          naive_n_mm_loop p t n todo (if match then occurrences @ [i] else occurrences))"

definition naive_n_mm :: "string \<Rightarrow> string \<Rightarrow> int \<Rightarrow> error + nat list" where
  "naive_n_mm p t n =
     naive_n_mm_loop p t n (range_py (int (length t) - int (length p) + 1)) []"

section \<open>Boyer-Moore exact matching\<close>

text \<open>
  \<^verbatim>\<open>
  def boyer_moore_exact_matching(pattern, p_bm, text):
      """
      Boyer-Moore exact matching of pattern p with text t.
      Use both good suffix and bad character rules to get the best skip distance
      Inputs: pattern=pattern, text=text, p_bm=BoyerMoore object for pattern
      Output: offsets for occurrences of pattern in text
      """
      occurrences = []
      i = 0
      while i < len(text) - len(pattern) + 1:
          shift = 1
          mismatched = False
          for j in range(len(pattern) - 1, -1, -1):
              if pattern[j] != text[i + j]:
                  skip_bc = p_bm.bad_character_rule(j, text[i + j])
                  skip_gs = p_bm.good_suffix_rule(j)
                  shift = max(shift, skip_bc, skip_gs)
                  mismatched = True
                  break
          if not mismatched:
              occurrences
  \<close>
  This is the whole function as the notebook has it: the last statement is the bare
  expression \<^verbatim>\<open>occurrences\<close>, nothing is appended to the list, \<open>i\<close> is never changed,
  and there is no \<^verbatim>\<open>return\<close>.  When the loop ends the function returns \<^verbatim>\<open>None\<close>.

  The value a matcher hands back is therefore either \<^verbatim>\<open>None\<close> or a list of offsets.
  \<open>p_bm\<close> is an object with the two methods the loop calls.
\<close>

datatype matches = NoneValue | Offsets "nat list"

record bm_object =
  bad_character_rule :: "nat \<Rightarrow> char \<Rightarrow> error + int"
  good_suffix_rule :: "nat \<Rightarrow> error + int"

text \<open>
  The \<^verbatim>\<open>for j\<close> loop, over \<open>j = len(pattern)-1, \<dots>, 0\<close>, with state \<open>(shift, mismatched)\<close>.
\<close>

fun bm_compare ::
  "string \<Rightarrow> bm_object \<Rightarrow> string \<Rightarrow> nat \<Rightarrow> nat list \<Rightarrow> int \<times> bool \<Rightarrow> error + (int \<times> bool)" where
  "bm_compare pattern p_bm text i [] (shift, mismatched) = Inr (shift, mismatched)"
| "bm_compare pattern p_bm text i (j # rest) (shift, mismatched) =
     and_then (getitem pattern j) (\<lambda>pc.
     and_then (getitem text (i + j)) (\<lambda>tc.
       if pc \<noteq> tc then
         and_then (bad_character_rule p_bm j tc) (\<lambda>skip_bc.
         and_then (good_suffix_rule p_bm j) (\<lambda>skip_gs.
           Inr (max shift (max skip_bc skip_gs), True)))
       else bm_compare pattern p_bm text i rest (shift, mismatched)))"

text \<open>
  The \<^verbatim>\<open>while\<close> loop.  It may run forever, so it is a partial function: the value
  \<open>None\<close> of the option type means that the loop does not return; \<open>Some (Inl e)\<close> is an
  exception and \<open>Some (Inr v)\<close> the returned value.
\<close>

partial_function (option) bm_while ::
  "string \<Rightarrow> bm_object \<Rightarrow> string \<Rightarrow> nat \<Rightarrow> nat list \<Rightarrow> (error + matches) option" where
  "bm_while pattern p_bm text i occurrences =
     (if int i < int (length text) - int (length pattern) + 1 then
        (case bm_compare pattern p_bm text i (rev [0..<length pattern]) (1, False) of
           Inl e \<Rightarrow> Some (Inl e)
         | Inr (shift, mismatched) \<Rightarrow> bm_while pattern p_bm text i occurrences)
      else Some (Inr NoneValue))"

declare bm_while.simps [code]

definition boyer_moore_exact_matching ::
  "string \<Rightarrow> bm_object \<Rightarrow> string \<Rightarrow> (error + matches) option" where
  "boyer_moore_exact_matching pattern p_bm text = bm_while pattern p_bm text 0 []"

section \<open>Approximate matching\<close>

text \<open>
  Modelled from the spec: the class \<^verbatim>\<open>BoyerMoore\<close> (module \<^verbatim>\<open>BoyerMoore\<close>) is imported by
  the notebook and is not among the sources.  The bad-character rule gives the distance
  that moves the pattern so that the mismatched text character meets its rightmost
  occurrence in the pattern to the left of \<open>j\<close>, or moves the pattern past it when there
  is none.
\<close>

definition bad_character_skip :: "string \<Rightarrow> nat \<Rightarrow> char \<Rightarrow> int" where
  "bad_character_skip p j c =
     (case List.find (\<lambda>r. p ! r = c) (rev [0..<j]) of
        Some r \<Rightarrow> int j - int r
      | None \<Rightarrow> int j + 1)"

text \<open>
  Modelled from the spec: the good-suffix rule of the missing class \<^verbatim>\<open>BoyerMoore\<close>, the
  least shift that realigns the suffix matched to the right of \<open>j\<close> with an occurrence
  of it in the pattern, or with the border of the pattern that fits.
\<close>

definition good_suffix_skip :: "string \<Rightarrow> nat \<Rightarrow> int" where
  "good_suffix_skip p j =
     (case List.find (\<lambda>s. list_all (\<lambda>k. k < s \<or> p ! (k - s) = p ! k) [j + 1..<length p])
             [1..<length p + 1] of
        Some s \<Rightarrow> int s
      | None \<Rightarrow> int (length p))"

text \<open>
  Modelled from the spec: the constructor of the missing class \<^verbatim>\<open>BoyerMoore\<close>, which
  preprocesses one pattern into the two rules.
\<close>

definition BoyerMoore :: "string \<Rightarrow> bm_object" where
  "BoyerMoore p =
     \<lparr>bad_character_rule = (\<lambda>j c. Inr (bad_character_skip p j c)),
      good_suffix_rule = (\<lambda>j. Inr (good_suffix_skip p j))\<rparr>"

text \<open>
  Modelled from the spec: \<^verbatim>\<open>Index(text, k)\<close> (module \<^verbatim>\<open>Index_objects\<close>, not among the
  sources) holds, for every offset \<open>0 \<le> i \<le> len(text) - k\<close>, the entry
  \<^verbatim>\<open>text[i:i+k] -> i\<close>.
\<close>

record index_object =
  index_k :: int
  index_entries :: "(string \<times> nat) list"

definition Index :: "string \<Rightarrow> int \<Rightarrow> index_object" where
  "Index t k =
     \<lparr>index_k = k,
      index_entries =
        map (\<lambda>i. (slice t (int i) (int i + k), i)) (range_py (int (length t) - k + 1))\<rparr>"

text \<open>
  Modelled from the spec: \<^verbatim>\<open>queryIndex(p, t, index)\<close> (module \<^verbatim>\<open>Index_objects\<close>) looks the
  piece \<open>p\<close> up and returns the offsets stored under it, none when the key is absent.
\<close>

definition queryIndex :: "string \<Rightarrow> string \<Rightarrow> index_object \<Rightarrow> matches" where
  "queryIndex p t ind = Offsets (map snd (filter (\<lambda>(key, i). key = p) (index_entries ind)))"

text \<open>
  Modelled from the spec: \<^verbatim>\<open>SubseqIndex(text, k, ival)\<close> (module \<^verbatim>\<open>Index_objects\<close>) stores,
  for every start offset at which the span \<open>k * ival - ival + 1\<close> fits in the text, the
  \<open>k\<close> symbols taken every \<open>ival\<close> positions.  \<open>subseq\<close> takes the symbols, as many of
  the \<open>k\<close> as the sequence has.
\<close>

record subseq_index_object =
  subseq_k :: int
  subseq_ival :: int
  subseq_entries :: "(string \<times> nat) list"

definition subseq :: "string \<Rightarrow> nat \<Rightarrow> int \<Rightarrow> int \<Rightarrow> string" where
  "subseq t i k ival =
     map (\<lambda>q. t ! (i + q * nat ival)) (filter (\<lambda>q. i + q * nat ival < length t) [0..<nat k])"

definition SubseqIndex :: "string \<Rightarrow> int \<Rightarrow> int \<Rightarrow> subseq_index_object" where
  "SubseqIndex t k ival =
     \<lparr>subseq_k = k, subseq_ival = ival,
      subseq_entries =
        map (\<lambda>i. (subseq t i k ival, i))
          (range_py (int (length t) - (k * ival - ival + 1) + 1))\<rparr>"

text \<open>
  Modelled from the spec: \<^verbatim>\<open>querySubseqIndex(p, t, index)\<close> (module \<^verbatim>\<open>Index_objects\<close>)
  samples the piece \<open>p\<close> the same way and returns the offsets stored under that key.
\<close>

definition querySubseqIndex :: "string \<Rightarrow> string \<Rightarrow> subseq_index_object \<Rightarrow> matches" where
  "querySubseqIndex p t ind =
     Offsets (map snd
       (filter (\<lambda>(key, i). key = subseq p 0 (subseq_k ind) (subseq_ival ind)) (subseq_entries ind)))"

text \<open>
  \<^verbatim>\<open>
  def approximate_matching(pattern, text, n, method='SubStringIndex'):
      segment_len = len(pattern) // (n + 1)
      all_matches = set()
      total_hits = 0
      for i in range(n + 1):
          start = i * segment_len
          end = min((i + 1) * segment_len, len(pattern))

          if method == 'BoyerMoore':
              pattern_bm = BoyerMoore(pattern[start:end])
              matches = boyer_moore_exact_matching(pattern[start:end], pattern_bm, text)
          elif method == 'SubStringIndex':
              k = end - start
              text_ind = Index(text, k)
              matches = queryIndex(pattern[start:end], text, text_ind)
          elif method == 'SubSeqIndex':
              k = end - start
              text_ind = SubseqIndex(text, k, 3)
              matches = querySubseqIndex(pattern[start:end], text, text_ind)
          else:
              raise Exception('Not a valid method!')

          total_hits += len(matches)
          for m in matches:
              if m < start or m - start + len(pattern) > len(text):
                  continue
              mismatches = 0
              for j in range(0, start):
                  if pattern[j] != text[m - start + j]:
                      mismatches += 1
                      if mismatches > n:
                          break
              for j in range(end, len(pattern)):
                  if pattern[j] != text[m - start + j]:
                      mismatches += 1
                      if mismatches > n:
                          break
              if mismatches <= n:
                  all_matches.add(m - start)
      print('total hits: ', total_hits)
      return list(all_matches)
  \<close>
  \<open>count_mismatches\<close> is either of the two \<^verbatim>\<open>for j\<close> loops (\<open>base\<close> is \<open>m - start\<close>),
  \<open>verify_hit\<close> the body of \<^verbatim>\<open>for m in matches\<close>, \<open>segment_matches\<close> the dispatch on
  \<open>method\<close> (the source's \<open>end\<close> is \<open>seg_end\<close>) and \<open>approximate_loop\<close> the loop
  \<^verbatim>\<open>for i in range(n + 1)\<close> with state \<open>(all_matches, total_hits)\<close>.  The set
  \<open>all_matches\<close> is the list of its members in the order they were added, and that list
  is what is returned; \<^verbatim>\<open>len(None)\<close> raises \<^verbatim>\<open>TypeError\<close>, and \<^verbatim>\<open>//\<close> by zero raises
  \<^verbatim>\<open>ZeroDivisionError\<close>.  \<open>approximate_matching_run\<close> also gives the printed total.
  As for every partial function here, the outer \<open>None\<close> means that the call does not
  return.
\<close>

fun count_mismatches ::
  "string \<Rightarrow> string \<Rightarrow> int \<Rightarrow> int \<Rightarrow> int list \<Rightarrow> int \<Rightarrow> error + int" where
  "count_mismatches pattern text n base [] mismatches = Inr mismatches"
| "count_mismatches pattern text n base (j # rest) mismatches =
     and_then (getitem_int pattern j) (\<lambda>pc.
     and_then (getitem_int text (base + j)) (\<lambda>tc.
       if pc \<noteq> tc then
         (if mismatches + 1 > n then Inr (mismatches + 1)
          else count_mismatches pattern text n base rest (mismatches + 1))
       else count_mismatches pattern text n base rest mismatches))"

definition add_offset :: "int list \<Rightarrow> int \<Rightarrow> int list" where
  "add_offset all_matches v = (if v \<in> set all_matches then all_matches else all_matches @ [v])"

definition verify_hit ::
  "string \<Rightarrow> string \<Rightarrow> int \<Rightarrow> int \<Rightarrow> int \<Rightarrow> nat \<Rightarrow> int list \<Rightarrow> error + int list" where
  "verify_hit pattern text n start seg_end m all_matches =
     (if int m < start \<or> int m - start + int (length pattern) > int (length text)
      then Inr all_matches
      else
        and_then (count_mismatches pattern text n (int m - start) (range_from 0 start) 0)
          (\<lambda>mismatches.
        and_then (count_mismatches pattern text n (int m - start)
                    (range_from seg_end (int (length pattern))) mismatches)
          (\<lambda>mismatches.
             Inr (if mismatches \<le> n then add_offset all_matches (int m - start)
                  else all_matches))))"

definition segment_matches ::
  "string \<Rightarrow> string \<Rightarrow> string \<Rightarrow> int \<Rightarrow> int \<Rightarrow> (error + matches) option" where
  "segment_matches method pattern text start seg_end =
     (if method = ''BoyerMoore'' then
        boyer_moore_exact_matching (slice pattern start seg_end)
          (BoyerMoore (slice pattern start seg_end)) text
      else if method = ''SubStringIndex'' then
        Some (Inr (queryIndex (slice pattern start seg_end) text (Index text (seg_end - start))))
      else if method = ''SubSeqIndex'' then
        Some (Inr (querySubseqIndex (slice pattern start seg_end) text
                     (SubseqIndex text (seg_end - start) 3)))
      else Some (Inl (Exception ''Not a valid method!'')))"

fun approximate_loop ::
  "string \<Rightarrow> string \<Rightarrow> int \<Rightarrow> string \<Rightarrow> int \<Rightarrow> nat list \<Rightarrow> int list \<times> int \<Rightarrow>
     (error + int list \<times> int) option" where
  "approximate_loop pattern text n method segment_len [] state = Some (Inr state)"
| "approximate_loop pattern text n method segment_len (i # rest) (all_matches, total_hits) =
     (case segment_matches method pattern text (int i * segment_len)
             (min ((int i + 1) * segment_len) (int (length pattern))) of
        None \<Rightarrow> None
      | Some (Inl e) \<Rightarrow> Some (Inl e)
      | Some (Inr NoneValue) \<Rightarrow> Some (Inl TypeError)
      | Some (Inr (Offsets matches)) \<Rightarrow>
          (case for_loop matches
                  (verify_hit pattern text n (int i * segment_len)
                     (min ((int i + 1) * segment_len) (int (length pattern))))
                  all_matches of
             Inl e \<Rightarrow> Some (Inl e)
           | Inr all_matches' \<Rightarrow>
               approximate_loop pattern text n method segment_len rest
                 (all_matches', total_hits + int (length matches))))"

definition approximate_matching_run ::
  "string \<Rightarrow> string \<Rightarrow> int \<Rightarrow> string \<Rightarrow> (error + int list \<times> int) option" where
  "approximate_matching_run pattern text n method =
     (if n + 1 = 0 then Some (Inl ZeroDivisionError)
      else approximate_loop pattern text n method (int (length pattern) div (n + 1))
             (range_py (n + 1)) ([], 0))"

definition approximate_matching ::
  "string \<Rightarrow> string \<Rightarrow> int \<Rightarrow> string \<Rightarrow> (error + int list) option" where
  "approximate_matching pattern text n method =
     map_option (map_sum id fst) (approximate_matching_run pattern text n method)"


section \<open>Edit distance\<close>

text \<open>
  The distance matrix \<open>D\<close> is a list of rows, each row a list of its own (the source
  appends a fresh \<^verbatim>\<open>[0]*(len(y)+1)\<close> per row), read with \<^verbatim>\<open>D[i][j]\<close> and written with
  \<^verbatim>\<open>D[i][j] = v\<close>; both raise \<^verbatim>\<open>IndexError\<close> outside the matrix.
\<close>

type_synonym matrix = "int list list"

definition get_cell :: "matrix \<Rightarrow> nat \<Rightarrow> nat \<Rightarrow> error + int" where
  "get_cell D i j = and_then (getitem D i) (\<lambda>row. getitem row j)"

definition set_cell :: "matrix \<Rightarrow> nat \<Rightarrow> nat \<Rightarrow> int \<Rightarrow> error + matrix" where
  "set_cell D i j v =
     and_then (getitem D i)
       (\<lambda>row. if j < length row then Inr (D[i := row[j := v]]) else Inl IndexError)"

text \<open>\<^verbatim>\<open>xs[-1]\<close> and \<^verbatim>\<open>min(xs)\<close>.\<close>

definition last_item :: "'a list \<Rightarrow> error + 'a" where
  "last_item xs = (if xs = [] then Inl IndexError else Inr (last xs))"

fun min_py :: "int list \<Rightarrow> error + int" where
  "min_py [] = Inl ValueError"
| "min_py (v # vs) = Inr (fold min vs v)"

text \<open>
  \<^verbatim>\<open>
  def editDist_xy(x, y):
      D = []
      for i in range(len(x)+1):
          D.append([0]*(len(y)+1))
      for i in range(len(x)+1):
          D[i][0] = i
      for i in range(len(y)+1):
          D[0][i] = i
      for i in range(1, len(x)+1):
          for j in range(1, len(y)+1):
              distHor = D[i][j-1] + 1
              distVer = D[i-1][j] + 1
              if x[i-1] == y[j-1]:
                  distDiag = D[i-1][j-1]
              else:
                  distDiag = D[i-1][j-1] + 1
              D[i][j] = min(distHor, distVer, distDiag)
      return D[-1][-1]
  \<close>
  \<open>new_matrix\<close> is the first loop, \<open>fill_cell\<close> the body of the innermost loop and
  \<open>fill_matrix\<close> the nested loops; \<open>editDist_min\<close> has the same three, word for word.
\<close>

definition new_matrix :: "string \<Rightarrow> string \<Rightarrow> matrix" where
  "new_matrix x y = map (\<lambda>i. replicate (length y + 1) 0) (range_py (int (length x) + 1))"

definition fill_cell :: "string \<Rightarrow> string \<Rightarrow> nat \<Rightarrow> nat \<Rightarrow> matrix \<Rightarrow> error + matrix" where
  "fill_cell x y i j D =
     and_then (get_cell D i (j - 1)) (\<lambda>left.
     and_then (get_cell D (i - 1) j) (\<lambda>up.
     and_then (getitem x (i - 1)) (\<lambda>a.
     and_then (getitem y (j - 1)) (\<lambda>b.
     and_then (get_cell D (i - 1) (j - 1)) (\<lambda>diag.
       set_cell D i j
         (min (left + 1) (min (up + 1) (if a = b then diag else diag + 1))))))))"

definition fill_matrix :: "string \<Rightarrow> string \<Rightarrow> matrix \<Rightarrow> error + matrix" where
  "fill_matrix x y D =
     for_loop [1..<length x + 1]
       (\<lambda>i. for_loop [1..<length y + 1] (\<lambda>j. fill_cell x y i j)) D"

definition editDist_xy :: "string \<Rightarrow> string \<Rightarrow> error + int" where
  "editDist_xy x y =
     and_then (for_loop (range_py (int (length x) + 1)) (\<lambda>i D. set_cell D i 0 (int i))
                (new_matrix x y)) (\<lambda>D.
     and_then (for_loop (range_py (int (length y) + 1)) (\<lambda>i D. set_cell D 0 i (int i)) D) (\<lambda>D.
     and_then (fill_matrix x y D) (\<lambda>D.
     and_then (last_item D) last_item)))"

text \<open>
  \<^verbatim>\<open>
  def editDist_min(p, t):
      D = []
      for i in range(len(p)+1):
          D.append([0]*(len(t)+1))
      for i in range(len(p)+1):
          D[i][0] = i
      for i in range(len(t)+1):
          D[0][i] = 0
      for i in range(1, len(p)+1):
          for j in range(1, len(t)+1):
              ...                      # as in editDist_xy, with p and t for x and y
      return min(D[-1][:])
  \<close>
\<close>

definition editDist_min :: "string \<Rightarrow> string \<Rightarrow> error + int" where
  "editDist_min p t =
     and_then (for_loop (range_py (int (length p) + 1)) (\<lambda>i D. set_cell D i 0 (int i))
                (new_matrix p t)) (\<lambda>D.
     and_then (for_loop (range_py (int (length t) + 1)) (\<lambda>i D. set_cell D 0 i 0) D) (\<lambda>D.
     and_then (fill_matrix p t D) (\<lambda>D.
     and_then (last_item D) (\<lambda>row. min_py (slice_from row 0)))))"


section \<open>Assembly: overlaps\<close>

text \<open>
  \<^verbatim>\<open>a.find(sub, start)\<close> for \<open>start \<ge> 0\<close>: the lowest index \<open>i \<ge> start\<close> with
  \<^verbatim>\<open>a[i:i+len(sub)] == sub\<close>, or \<open>-1\<close>.  The empty string is found at every
  \<open>start \<le> len(a)\<close> and nowhere beyond.
\<close>

function find_py :: "string \<Rightarrow> string \<Rightarrow> nat \<Rightarrow> int" where
  "find_py a sub start =
     (if length a < start + length sub then - 1
      else if take (length sub) (drop start a) = sub then int start
      else find_py a sub (Suc start))"
  by pat_completeness auto
termination
  by (relation "measure (\<lambda>(a, sub, start). Suc (length a) - start)") auto

declare find_py.simps [simp del]

text \<open>\<^verbatim>\<open>b.startswith(x)\<close>.\<close>

definition startswith :: "string \<Rightarrow> string \<Rightarrow> bool" where
  "startswith b x = (take (length x) b = x)"

lemma find_py_bounds:
  "find_py a sub start \<noteq> - 1 \<Longrightarrow>
     int start \<le> find_py a sub start \<and> find_py a sub start \<le> int (length a)"
proof (induction a sub start rule: find_py.induct)
  case (1 a sub start)
  show ?case
  proof (cases "length a < start + length sub")
    case True
    with "1.prems" show ?thesis by (simp add: find_py.simps [of a sub start])
  next
    case False
    note fits = this
    show ?thesis
    proof (cases "take (length sub) (drop start a) = sub")
      case True
      with fits show ?thesis by (simp add: find_py.simps [of a sub start])
    next
      case False
      with fits "1.prems" have "find_py a sub (Suc start) \<noteq> - 1"
        by (simp add: find_py.simps [of a sub start])
      from "1.IH" [OF fits False this] fits False show ?thesis
        by (simp add: find_py.simps [of a sub start])
    qed
  qed
qed

text \<open>
  \<^verbatim>\<open>
  def overlap(a, b, min_length=3):
      """ Return length of longest suffix of 'a' matching
          a prefix of 'b' that is at least 'min_length'
          characters long.  If no such overlap exists,
          return 0. """
      start = 0
      while True:
          start = a.find(b[:min_length], start)
          if start == -1:
              return 0
          if b.startswith(a[start:]):
              return len(a)-start
          start += 1
  \<close>
  \<open>overlap_loop\<close> is the \<^verbatim>\<open>while True\<close> loop, entered with the current \<open>start\<close>.
\<close>

function overlap_loop :: "string \<Rightarrow> string \<Rightarrow> int \<Rightarrow> nat \<Rightarrow> int" where
  "overlap_loop a b min_length start =
     (if find_py a (slice_to b min_length) start = - 1 then 0
      else if startswith b (slice_from a (find_py a (slice_to b min_length) start))
        then int (length a) - find_py a (slice_to b min_length) start
      else overlap_loop a b min_length (nat (find_py a (slice_to b min_length) start + 1)))"
  by pat_completeness auto
termination
proof (relation "measure (\<lambda>(a, b, min_length, start). Suc (length a) - start)")
  show "wf (measure (\<lambda>(a, b, min_length, start). Suc (length a) - start))"
    by simp
next
  fix a b :: string and min_length :: int and start :: nat
  assume "find_py a (slice_to b min_length) start \<noteq> - 1"
  from find_py_bounds [OF this]
  show "((a, b, min_length, nat (find_py a (slice_to b min_length) start + 1)),
         (a, b, min_length, start))
        \<in> measure (\<lambda>(a, b, min_length, start). Suc (length a) - start)"
    by simp linarith
qed

declare overlap_loop.simps [simp del]

definition overlap :: "string \<Rightarrow> string \<Rightarrow> int \<Rightarrow> int" where
  "overlap a b min_length = overlap_loop a b min_length 0"

section \<open>Assembly: the indexed greedy superstring\<close>

text \<open>
  \<^verbatim>\<open>
  def get_kmers(read, k):
      kmers = []
      for i in range(len(read) - k + 1):
          kmers.append(read[i:i+k])
      return kmers
  \<close>
\<close>

definition get_kmers :: "string \<Rightarrow> int \<Rightarrow> string list" where
  "get_kmers read k =
     map (\<lambda>i. slice read (int i) (int i + k)) (range_py (int (length read) - k + 1))"

text \<open>
  A Python \<^verbatim>\<open>set\<close> of reads is kept as the list of its members in the order they were
  first added.  The order in which a \<^verbatim>\<open>for\<close> loop visits a set is not fixed by the
  language; the loops below take it from a parameter \<open>order\<close>, which maps the members
  as stored to the sequence visited.

  \<^verbatim>\<open>
  class index(object):
      def __init__(self):
          self.dct={}
      def get_dct(self):
          return self.dct
      def add_read(self, read, k):
          kmers = get_kmers(read, k)
          for kmer in kmers:
              if kmer in self.dct:
                  self.dct[kmer].add(read)
              else:
                  self.dct[kmer]=set([read])
  \<close>
\<close>

type_synonym read_set = "string list"

type_synonym index = "string \<rightharpoonup> read_set"

definition set_add :: "read_set \<Rightarrow> string \<Rightarrow> read_set" where
  "set_add s read = (if read \<in> set s then s else s @ [read])"

definition add_kmer :: "string \<Rightarrow> string \<Rightarrow> index \<Rightarrow> index" where
  "add_kmer read kmer dct =
     (case dct kmer of
        Some s \<Rightarrow> dct(kmer \<mapsto> set_add s read)
      | None \<Rightarrow> dct(kmer \<mapsto> [read]))"

definition add_read :: "index \<Rightarrow> string \<Rightarrow> int \<Rightarrow> index" where
  "add_read dct read k = fold (add_kmer read) (get_kmers read k) dct"

text \<open>
  \<^verbatim>\<open>
  def pick_max_overlap_index(reads, k):
      ind = index()
      for read in reads:
          ind.add_read(read,k)
      kmer_dct = ind.get_dct()
      reada, readb = None, None
      best_olen = 0
      for read in reads:
          read_suffix = read[-k:]
          for matched_read in kmer_dct[read_suffix]:
              if matched_read != read:
                  olen = overlap(read, matched_read, k)
                  if olen>best_olen:
                      best_olen = olen
                      reada, readb = read, matched_read
      return reada, readb, best_olen
  \<close>
  The loop state is \<open>(reada, readb, best_olen)\<close>; \<^verbatim>\<open>kmer_dct[read_suffix]\<close> raises
  \<^verbatim>\<open>KeyError\<close> when the suffix is not a key.
\<close>

type_synonym pick = "string option \<times> string option \<times> int"

fun pick_matched :: "string \<Rightarrow> int \<Rightarrow> string list \<Rightarrow> pick \<Rightarrow> pick" where
  "pick_matched read k [] best = best"
| "pick_matched read k (matched_read # rest) (reada, readb, best_olen) =
     (if matched_read \<noteq> read then
        (if overlap read matched_read k > best_olen
         then pick_matched read k rest (Some read, Some matched_read, overlap read matched_read k)
         else pick_matched read k rest (reada, readb, best_olen))
      else pick_matched read k rest (reada, readb, best_olen))"

fun pick_reads ::
  "(read_set \<Rightarrow> string list) \<Rightarrow> index \<Rightarrow> int \<Rightarrow> string list \<Rightarrow> pick \<Rightarrow> error + pick" where
  "pick_reads order kmer_dct k [] best = Inr best"
| "pick_reads order kmer_dct k (read # rest) best =
     (case kmer_dct (slice_from read (- k)) of
        None \<Rightarrow> Inl KeyError
      | Some s \<Rightarrow> pick_reads order kmer_dct k rest (pick_matched read k (order s) best))"

definition pick_max_overlap_index ::
  "(read_set \<Rightarrow> string list) \<Rightarrow> string list \<Rightarrow> int \<Rightarrow> error + pick" where
  "pick_max_overlap_index order reads k =
     pick_reads order (fold (\<lambda>read dct. add_read dct read k) reads Map.empty) k reads
       (None, None, 0)"

text \<open>
  \<^verbatim>\<open>reads.remove(x)\<close>: drops the first element equal to \<open>x\<close>, \<^verbatim>\<open>ValueError\<close> when there
  is none (\<^verbatim>\<open>None\<close> is never an element of a list of strings).
\<close>

fun remove :: "string list \<Rightarrow> string option \<Rightarrow> error + string list" where
  "remove reads None = Inl ValueError"
| "remove reads (Some x) = (if x \<in> set reads then Inr (remove1 x reads) else Inl ValueError)"

text \<open>\<^verbatim>\<open>reada + readb[olen:]\<close>: \<^verbatim>\<open>TypeError\<close> when an operand is \<^verbatim>\<open>None\<close>.\<close>

fun merge_reads :: "string option \<Rightarrow> string option \<Rightarrow> int \<Rightarrow> error + string" where
  "merge_reads (Some a) (Some b) olen = Inr (a @ slice_from b olen)"
| "merge_reads reada readb olen = Inl TypeError"

lemma remove_length: "remove reads x = Inr reads' \<Longrightarrow> Suc (length reads') = length reads"
proof (cases x)
  case None
  assume "remove reads x = Inr reads'"
  with None show ?thesis by simp
next
  case (Some a)
  assume "remove reads x = Inr reads'"
  with Some have "a \<in> set reads" and "reads' = remove1 a reads"
    by (simp_all split: if_splits)
  moreover from \<open>a \<in> set reads\<close> have "0 < length reads"
    by (rule length_pos_if_in_set)
  ultimately show ?thesis by (simp add: length_remove1)
qed

text \<open>
  \<^verbatim>\<open>
  def greedy_scs_using_index(reads, k):
      reada, readb, olen = pick_max_overlap_index(reads, k)
      while olen>0:
          reads.remove(reada)
          reads.remove(readb)
          reads.append(reada+readb[olen:])
          reada, readb, olen = pick_max_overlap_index(reads, k)
      return ''.join(reads)
  \<close>
  \<open>reads\<close> is the caller's list object, changed in place.  The function returns the joined
  string together with the contents of that list when it returns.  Each call of the
  recursion is one evaluation of the loop condition, with the pick that precedes it.
\<close>

function greedy_scs_using_index ::
  "(read_set \<Rightarrow> string list) \<Rightarrow> string list \<Rightarrow> int \<Rightarrow> error + (string \<times> string list)" where
  "greedy_scs_using_index order reads k =
     (case pick_max_overlap_index order reads k of
        Inl e \<Rightarrow> Inl e
      | Inr (reada, readb, olen) \<Rightarrow>
          if olen > 0 then
            (case remove reads reada of
               Inl e \<Rightarrow> Inl e
             | Inr reads1 \<Rightarrow>
                 (case remove reads1 readb of
                    Inl e \<Rightarrow> Inl e
                  | Inr reads2 \<Rightarrow>
                      (case merge_reads reada readb olen of
                         Inl e \<Rightarrow> Inl e
                       | Inr merged \<Rightarrow> greedy_scs_using_index order (reads2 @ [merged]) k)))
          else Inr (concat reads, reads))"
  by pat_completeness auto
termination
proof (relation "measure (\<lambda>(order, reads, k). length reads)")
  show "wf (measure (\<lambda>(order, reads, k). length reads))"
    by simp
next
  fix order :: "read_set \<Rightarrow> string list" and reads reads1 reads2 :: "string list"
    and k :: int and reada readb :: "string option" and merged :: string
  assume "remove reads reada = Inr reads1" and "remove reads1 readb = Inr reads2"
  then have "Suc (Suc (length reads2)) = length reads"
    using remove_length by metis
  then show "((order, reads2 @ [merged], k), (order, reads, k))
        \<in> measure (\<lambda>(order, reads, k). length reads)"
    by simp
qed

declare greedy_scs_using_index.simps [simp del]

section \<open>Properties of the utilities and the naive matchers\<close>

definition bases :: "char set" where
  "bases = {CHR ''A'', CHR ''C'', CHR ''G'', CHR ''T'', CHR ''N''}"

lemma complement_bases:
  assumes "c \<in> bases"
  shows "\<exists>d. complement c = Some d \<and> d \<in> bases \<and> complement d = Some c"
  using assms by (auto simp: bases_def complement_def)

lemma reverseComplement_loop_bases:
  "set s \<subseteq> bases \<Longrightarrow>
     reverseComplement_loop s t = Inr (rev (map (the \<circ> complement) s) @ t)"
proof (induction s arbitrary: t)
  case Nil
  show ?case by simp
next
  case (Cons base s)
  from Cons.prems have "base \<in> bases" and rest: "set s \<subseteq> bases" by simp_all
  then obtain d where "complement base = Some d"
    using complement_bases by blast
  with Cons.IH [OF rest] show ?case by simp
qed

lemma complement_twice:
  "set s \<subseteq> bases \<Longrightarrow>
     set (map (the \<circ> complement) s) \<subseteq> bases \<and>
     map (the \<circ> complement) (map (the \<circ> complement) s) = s"
proof (induction s)
  case Nil
  show ?case by simp
next
  case (Cons base s)
  from Cons.prems have "base \<in> bases" by simp
  then obtain d where "complement base = Some d" "d \<in> bases" "complement d = Some base"
    using complement_bases by blast
  with Cons show ?case by simp
qed

text \<open>
  C9. On every sequence over the alphabet A, C, G, T, N, \<open>reverseComplement\<close> returns a
  sequence, and applying \<open>reverseComplement\<close> to that result returns the original one.
\<close>

theorem reverseComplement_involution:
  assumes "set pattern \<subseteq> bases"
  shows "\<exists>rc. reverseComplement pattern = Inr rc \<and> reverseComplement rc = Inr pattern"
proof -
  let ?c = "map (the \<circ> complement)"
  have first: "reverseComplement pattern = Inr (rev (?c pattern))"
    using reverseComplement_loop_bases [OF assms, of "[]"]
    by (simp add: reverseComplement_def)
  have twice: "set (?c pattern) \<subseteq> bases" "?c (?c pattern) = pattern"
    using complement_twice [OF assms] by simp_all
  have "set (rev (?c pattern)) \<subseteq> bases"
    using twice(1) by simp
  then have "reverseComplement (rev (?c pattern)) = Inr (rev (?c (rev (?c pattern))))"
    using reverseComplement_loop_bases [of "rev (?c pattern)" "[]"]
    by (simp add: reverseComplement_def)
  also have "rev (?c (rev (?c pattern))) = pattern"
    using twice(2) by (simp add: rev_map)
  finally have "reverseComplement (rev (?c pattern)) = Inr pattern" .
  with first show ?thesis by blast
qed

theorem reverseComplement_involution_witness:
  "reverseComplement ''GATTACAN'' = Inr ''NTGTAATC'' \<and>
   reverseComplement ''NTGTAATC'' = Inr ''GATTACAN''"
proof -
  have "set ''GATTACAN'' \<subseteq> bases"
    by (simp add: bases_def)
  from reverseComplement_involution [OF this]
  show ?thesis
    by (simp add: reverseComplement_def complement_def)
qed

lemma naive_exact_chars_eq:
  "i + k + length q \<le> length t \<Longrightarrow>
     naive_exact_chars (enumerate k q) t i = Inr (take (length q) (drop (i + k) t) = q)"
proof (induction q arbitrary: k)
  case Nil
  show ?case by simp
next
  case (Cons c q)
  from Cons.prems have inside: "i + k < length t" and rest: "i + Suc k + length q \<le> length t"
    by simp_all
  have split: "drop (i + k) t = t ! (i + k) # drop (i + Suc k) t"
    using inside by (simp add: Cons_nth_drop_Suc)
  show ?case
    using Cons.IH [OF rest] inside by (auto simp: getitem_def split)
qed

lemma naive_exact_loop_eq:
  "\<forall>i\<in>set todo. i + length p \<le> length t \<Longrightarrow>
     naive_exact_loop p t todo occurrences =
       Inr (occurrences @ filter (\<lambda>i. take (length p) (drop i t) = p) todo)"
proof (induction todo arbitrary: occurrences)
  case Nil
  show ?case by simp
next
  case (Cons i todo)
  from Cons.prems have "i + 0 + length p \<le> length t" by simp
  from naive_exact_chars_eq [OF this] Cons.IH Cons.prems
  show ?case by simp
qed

lemma range_py_fits:
  "i \<in> set (range_py (int (length t) - int (length p) + 1)) \<Longrightarrow> i + length p \<le> length t"
  by (auto simp: range_py_def)

lemma naive_exact_eq:
  "naive_exact p t =
     Inr (filter (\<lambda>i. take (length p) (drop i t) = p)
            (range_py (int (length t) - int (length p) + 1)))"
  using naive_exact_loop_eq [of "range_py (int (length t) - int (length p) + 1)" p t "[]"]
  by (simp add: naive_exact_def range_py_fits)

text \<open>
  C3. \<open>naive_exact p t\<close> returns a list of offsets, and at every offset \<open>off\<close> of that list
  the pattern occurs verbatim: \<^verbatim>\<open>t[off:off+len(p)] == p\<close>.
\<close>

theorem naive_exact_sound:
  "\<exists>occurrences. naive_exact p t = Inr occurrences \<and>
     (\<forall>off\<in>set occurrences. slice t (int off) (int off + int (length p)) = p)"
proof -
  have "slice t (int off) (int off + int (length p)) = p"
    if "take (length p) (drop off t) = p" "off + length p \<le> length t" for off
    using that by (simp add: slice_def slice_bound_def min_def nat_add_distrib)
  then show ?thesis
    by (auto simp: naive_exact_eq dest: range_py_fits)
qed

theorem naive_exact_sound_witness:
  "naive_exact ''AT'' ''GATTAT'' = Inr [1, 4] \<and>
   slice ''GATTAT'' 1 (1 + int (length ''AT'')) = ''AT'' \<and>
   slice ''GATTAT'' 4 (4 + int (length ''AT'')) = ''AT''"
proof -
  have run: "naive_exact ''AT'' ''GATTAT'' = Inr [1, 4]"
    by (simp add: naive_exact_def range_py_def getitem_def enumerate_eq_zip upt_rec)
  from naive_exact_sound [of "''AT''" "''GATTAT''"] run
  show ?thesis by simp
qed

lemma naive_n_mm_chars_zero:
  "naive_n_mm_chars p t 0 i [k..<length p] 0 = naive_exact_chars (enumerate k (drop k p)) t i"
proof (induction "length p - k" arbitrary: k)
  case 0
  then show ?case by simp
next
  case (Suc d)
  then have inside: "k < length p" and rest: "d = length p - Suc k" by simp_all
  have upt: "[k..<length p] = k # [Suc k..<length p]"
    using inside by (simp add: upt_conv_Cons)
  have dropk: "drop k p = p ! k # drop (Suc k) p"
    using inside by (simp add: Cons_nth_drop_Suc)
  show ?case
    using Suc.hyps(1) [OF rest] inside
    by (simp add: upt dropk getitem_def split: sum.splits)
qed

lemma naive_n_mm_loop_zero:
  "naive_n_mm_loop p t 0 todo occurrences = naive_exact_loop p t todo occurrences"
proof (induction todo arbitrary: occurrences)
  case Nil
  show ?case by simp
next
  case (Cons i todo)
  have "naive_n_mm_chars p t 0 i (range_py (int (length p))) 0 =
        naive_exact_chars (enumerate 0 p) t i"
    using naive_n_mm_chars_zero [of p t i 0] by (simp add: range_py_def)
  with Cons.IH show ?case by (simp split: sum.splits)
qed

text \<open>
  C10. With a mismatch budget of zero, \<open>naive_n_mm\<close> returns exactly the offset list that
  \<open>naive_exact\<close> returns, for every pattern and text.
\<close>

theorem naive_n_mm_zero_is_naive_exact:
  "\<exists>occurrences. naive_exact p t = Inr occurrences \<and> naive_n_mm p t 0 = Inr occurrences"
  by (simp add: naive_n_mm_def naive_n_mm_loop_zero naive_exact_def [symmetric] naive_exact_eq)

section \<open>Properties of the assembly\<close>

text \<open>
  The docstring's example, and an input on which \<open>overlap\<close> returns a positive value
  below \<open>min_length\<close>: \<^verbatim>\<open>b[:min_length]\<close> is all of \<open>b\<close> when \<open>b\<close> is shorter than
  \<open>min_length\<close>, so a short \<open>b\<close> that ends \<open>a\<close> is reported with its own length.
\<close>

lemma overlap_example: "overlap ''ATGCAAT'' ''CAATCCC'' 2 = 4"
  by code_simp

text \<open>
  C5 (failing input). \<open>overlap ''CAT'' ''AT'' 3\<close> is 2: positive and smaller than the
  minimum length 3, where the claim and the docstring promise 0.
\<close>

theorem overlap_below_min_length: "overlap ''CAT'' ''AT'' 3 = 2"
  by code_simp

text \<open>
  The inner loop of \<open>pick_max_overlap_index\<close> replaces the best pair only on a strictly
  longer overlap.  Two facts about it hold for every order of visiting the set.
\<close>

lemma pick_matched_keep:
  "\<forall>m\<in>set s. m \<noteq> read \<longrightarrow> overlap read m k \<le> best_olen \<Longrightarrow>
     pick_matched read k s (reada, readb, best_olen) = (reada, readb, best_olen)"
  by (induction s) auto

lemma pick_matched_unique:
  assumes "m0 \<in> set s" and "m0 \<noteq> read" and "best_olen < overlap read m0 k"
    and "\<And>m. m \<in> set s \<Longrightarrow> m \<noteq> read \<Longrightarrow> m \<noteq> m0 \<Longrightarrow> overlap read m k \<le> best_olen"
  shows "pick_matched read k s (reada, readb, best_olen) = (Some read, Some m0, overlap read m0 k)"
  using assms
proof (induction s)
  case Nil
  then show ?case by simp
next
  case (Cons m s)
  show ?case
  proof (cases "m = m0")
    case True
    have "pick_matched read k s (Some read, Some m0, overlap read m0 k) =
          (Some read, Some m0, overlap read m0 k)"
    proof (rule pick_matched_keep, intro ballI impI)
      fix m' assume "m' \<in> set s" "m' \<noteq> read"
      with Cons.prems(3) Cons.prems(4) [of m'] show "overlap read m' k \<le> overlap read m0 k"
        by (cases "m' = m0") auto
    qed
    with True Cons.prems(2,3) show ?thesis by simp
  next
    case False
    with Cons.prems(1) have "m0 \<in> set s" by simp
    from Cons.IH [OF this Cons.prems(2,3)] Cons.prems(4) 
    have "pick_matched read k s (reada, readb, best_olen) = (Some read, Some m0, overlap read m0 k)"
      by simp
    moreover have "m \<noteq> read \<Longrightarrow> overlap read m k \<le> best_olen"
      using Cons.prems(4) [of m] False by simp
    ultimately show ?thesis by auto
  qed
qed


text \<open>The two picks of the run on the six reads, for every order of visiting the sets.\<close>

lemma pick_six_reads:
  assumes perm: "\<And>s. mset (order s) = mset s"
  shows "pick_max_overlap_index order [''CAT'', ''CTT'', ''TGC'', ''TGG'', ''GAT'', ''ATT''] 2 = Inr (Some ''CAT'', Some ''ATT'', 2)"
proof -
  have members: "set (order s) = set s" for s
    using perm [of s] by (rule mset_eq_setD)
  define dct where "dct = fold (\<lambda>read dct. add_read dct read 2) [''CAT'', ''CTT'', ''TGC'', ''TGG'', ''GAT'', ''ATT''] Map.empty"
  have keys:
    "dct (slice_from ''CAT'' (- 2)) = Some [''CAT'', ''GAT'', ''ATT'']"
    "dct (slice_from ''CTT'' (- 2)) = Some [''CTT'', ''ATT'']"
    "dct (slice_from ''TGC'' (- 2)) = Some [''TGC'']"
    "dct (slice_from ''TGG'' (- 2)) = Some [''TGG'']"
    "dct (slice_from ''GAT'' (- 2)) = Some [''CAT'', ''GAT'', ''ATT'']"
    "dct (slice_from ''ATT'' (- 2)) = Some [''CTT'', ''ATT'']"
    unfolding dct_def by code_simp+
  have olens:
    "overlap ''CAT'' ''GAT'' 2 = 0" "overlap ''CAT'' ''ATT'' 2 = 2"
    "overlap ''CTT'' ''ATT'' 2 = 0"
    "overlap ''GAT'' ''CAT'' 2 = 0" "overlap ''GAT'' ''ATT'' 2 = 2"
    "overlap ''ATT'' ''CTT'' 2 = 0"
    by code_simp+
  have s1: "pick_matched ''CAT'' 2 (order [''CAT'', ''GAT'', ''ATT'']) (None, None, 0) = (Some ''CAT'', Some ''ATT'', 2)"
    using pick_matched_unique [of "''ATT''" "order [''CAT'', ''GAT'', ''ATT'']" "''CAT''" 0 2 None None]
    by (auto simp: members olens)
  have s2: "pick_matched ''CTT'' 2 (order [''CTT'', ''ATT'']) (Some ''CAT'', Some ''ATT'', 2) = (Some ''CAT'', Some ''ATT'', 2)"
    by (rule pick_matched_keep) (auto simp: members olens)
  have s3: "pick_matched ''TGC'' 2 (order [''TGC'']) (Some ''CAT'', Some ''ATT'', 2) = (Some ''CAT'', Some ''ATT'', 2)"
    by (rule pick_matched_keep) (auto simp: members olens)
  have s4: "pick_matched ''TGG'' 2 (order [''TGG'']) (Some ''CAT'', Some ''ATT'', 2) = (Some ''CAT'', Some ''ATT'', 2)"
    by (rule pick_matched_keep) (auto simp: members olens)
  have s5: "pick_matched ''GAT'' 2 (order [''CAT'', ''GAT'', ''ATT'']) (Some ''CAT'', Some ''ATT'', 2) = (Some ''CAT'', Some ''ATT'', 2)"
    by (rule pick_matched_keep) (auto simp: members olens)
  have s6: "pick_matched ''ATT'' 2 (order [''CTT'', ''ATT'']) (Some ''CAT'', Some ''ATT'', 2) = (Some ''CAT'', Some ''ATT'', 2)"
    by (rule pick_matched_keep) (auto simp: members olens)
  show ?thesis
    unfolding pick_max_overlap_index_def dct_def [symmetric]
    by (simp add: keys s1 s2 s3 s4 s5 s6)
qed

lemma pick_five_reads:
  assumes perm: "\<And>s. mset (order s) = mset s"
  shows "pick_max_overlap_index order [''CTT'', ''TGC'', ''TGG'', ''GAT'', ''CATT''] 2 = Inr (None, None, 0)"
proof -
  have members: "set (order s) = set s" for s
    using perm [of s] by (rule mset_eq_setD)
  define dct where "dct = fold (\<lambda>read dct. add_read dct read 2) [''CTT'', ''TGC'', ''TGG'', ''GAT'', ''CATT''] Map.empty"
  have keys:
    "dct (slice_from ''CTT'' (- 2)) = Some [''CTT'', ''CATT'']"
    "dct (slice_from ''TGC'' (- 2)) = Some [''TGC'']"
    "dct (slice_from ''TGG'' (- 2)) = Some [''TGG'']"
    "dct (slice_from ''GAT'' (- 2)) = Some [''GAT'', ''CATT'']"
    "dct (slice_from ''CATT'' (- 2)) = Some [''CTT'', ''CATT'']"
    unfolding dct_def by code_simp+
  have olens:
    "overlap ''CTT'' ''CATT'' 2 = 0" "overlap ''GAT'' ''CATT'' 2 = 0"
    "overlap ''CATT'' ''CTT'' 2 = 0"
    by code_simp+
  have keep: "pick_matched read 2 (order s) (None, None, 0) = (None, None, 0)"
    if "(read, s) \<in> {(''CTT'', [''CTT'', ''CATT'']), (''TGC'', [''TGC'']), (''TGG'', [''TGG'']),
         (''GAT'', [''GAT'', ''CATT'']), (''CATT'', [''CTT'', ''CATT''])}" for read s
    by (rule pick_matched_keep) (use that in \<open>auto simp: members olens\<close>)
  show ?thesis
    unfolding pick_max_overlap_index_def dct_def [symmetric]
    by (simp add: keys keep)
qed

lemma greedy_scs_six_reads_run:
  assumes perm: "\<And>s. mset (order s) = mset s"
  shows "greedy_scs_using_index order [''CAT'', ''CTT'', ''TGC'', ''TGG'', ''GAT'', ''ATT''] 2 =
    Inr (''CTTTGCTGGGATCATT'', [''CTT'', ''TGC'', ''TGG'', ''GAT'', ''CATT''])"
proof -
  have "greedy_scs_using_index order [''CAT'', ''CTT'', ''TGC'', ''TGG'', ''GAT'', ''ATT''] 2 =
        greedy_scs_using_index order [''CTT'', ''TGC'', ''TGG'', ''GAT'', ''CATT''] 2"
    by (subst greedy_scs_using_index.simps)
      (simp add: pick_six_reads [OF perm] slice_from_def slice_bound_def)
  also have "\<dots> = Inr (''CTTTGCTGGGATCATT'', [''CTT'', ''TGC'', ''TGG'', ''GAT'', ''CATT''])"
    by (subst greedy_scs_using_index.simps) (simp add: pick_five_reads [OF perm])
  finally show ?thesis .
qed


text \<open>
  C4. On the reads CAT, CTT, TGC, TGG, GAT, ATT with minimum overlap 2,
  \<open>greedy_scs_using_index\<close> returns a string of length 16 that contains each of the six
  reads as a substring, whatever the order in which the sets of the index are visited.
\<close>

theorem greedy_scs_six_reads:
  assumes "\<And>s. mset (order s) = mset s"
  shows "\<exists>joined final.
    greedy_scs_using_index order [''CAT'', ''CTT'', ''TGC'', ''TGG'', ''GAT'', ''ATT''] 2 = Inr (joined, final) \<and>
    length joined = 16 \<and>
    (\<forall>read\<in>set [''CAT'', ''CTT'', ''TGC'', ''TGG'', ''GAT'', ''ATT'']. sublist read joined)"
proof -
  have "sublist ''CAT'' ''CTTTGCTGGGATCATT''" "sublist ''CTT'' ''CTTTGCTGGGATCATT''"
    "sublist ''TGC'' ''CTTTGCTGGGATCATT''" "sublist ''TGG'' ''CTTTGCTGGGATCATT''"
    "sublist ''GAT'' ''CTTTGCTGGGATCATT''" "sublist ''ATT'' ''CTTTGCTGGGATCATT''"
    by code_simp+
  then show ?thesis
    by (simp add: greedy_scs_six_reads_run [OF assms])
qed

theorem greedy_scs_six_reads_witness:
  "\<exists>joined final.
    greedy_scs_using_index rev [''CAT'', ''CTT'', ''TGC'', ''TGG'', ''GAT'', ''ATT''] 2 = Inr (joined, final) \<and>
    length joined = 16 \<and> sublist ''CAT'' joined \<and> sublist ''CTT'' joined \<and> sublist ''TGC'' joined \<and>
    sublist ''TGG'' joined \<and> sublist ''GAT'' joined \<and> sublist ''ATT'' joined"
  using greedy_scs_six_reads [of rev] by simp


text \<open>
  C7 (as stated, refuted). After the call on the six reads the caller's list holds five
  reads: it is not the list that was passed in.
\<close>

theorem greedy_scs_using_index_changes_reads:
  "greedy_scs_using_index id [''CAT'', ''CTT'', ''TGC'', ''TGG'', ''GAT'', ''ATT''] 2 =
     Inr (''CTTTGCTGGGATCATT'', [''CTT'', ''TGC'', ''TGG'', ''GAT'', ''CATT'']) \<and>
   [''CTT'', ''TGC'', ''TGG'', ''GAT'', ''CATT''] \<noteq>
     [''CAT'', ''CTT'', ''TGC'', ''TGG'', ''GAT'', ''ATT'']"
  using greedy_scs_six_reads_run [of id] by simp

text \<open>
  C7 (amended). When \<open>greedy_scs_using_index\<close> returns, the caller's list holds the
  remaining pool of reads and the returned string is their concatenation; the list is
  never longer than before, and it is unchanged exactly when the first pick finds no
  pair with a positive overlap, so that no merge takes place.
\<close>

theorem greedy_scs_using_index_reads_after:
  "greedy_scs_using_index order reads k = Inr (joined, final) \<Longrightarrow>
     joined = concat final \<and> length final \<le> length reads \<and>
     (final = reads \<longleftrightarrow>
        (\<exists>reada readb olen. pick_max_overlap_index order reads k = Inr (reada, readb, olen) \<and> \<not> olen > 0))"
proof (induction order reads k arbitrary: joined final rule: greedy_scs_using_index.induct)
  case (1 order reads k)
  obtain reada readb olen where pick: "pick_max_overlap_index order reads k = Inr (reada, readb, olen)"
    using "1.prems" by (subst (asm) greedy_scs_using_index.simps) (auto split: sum.splits)
  show ?case
  proof (cases "olen > 0")
    case False
    with pick "1.prems" show ?thesis
      by (subst (asm) greedy_scs_using_index.simps) auto
  next
    case True
    with pick "1.prems" obtain reads1 reads2 merged where
      steps: "remove reads reada = Inr reads1" "remove reads1 readb = Inr reads2"
        "merge_reads reada readb olen = Inr merged"
      and rest: "greedy_scs_using_index order (reads2 @ [merged]) k = Inr (joined, final)"
      by (subst (asm) greedy_scs_using_index.simps) (auto split: sum.splits)
    from "1.IH" [OF pick refl refl True steps rest]
    have "joined = concat final" and "length final \<le> length (reads2 @ [merged])"
      by simp_all
    moreover have "Suc (Suc (length reads2)) = length reads"
      using steps(1,2) remove_length by metis
    ultimately show ?thesis
      using pick True by auto
  qed
qed


theorem greedy_scs_using_index_reads_after_witness:
  "''CTTTGCTGGGATCATT'' = concat [''CTT'', ''TGC'', ''TGG'', ''GAT'', ''CATT''] \<and>
   length [''CTT'', ''TGC'', ''TGG'', ''GAT'', ''CATT''] \<le>
     length [''CAT'', ''CTT'', ''TGC'', ''TGG'', ''GAT'', ''ATT''] \<and>
   pick_max_overlap_index rev [''CAT'', ''CTT'', ''TGC'', ''TGG'', ''GAT'', ''ATT''] 2 =
     Inr (Some ''CAT'', Some ''ATT'', 2)"
proof -
  have run: "greedy_scs_using_index rev [''CAT'', ''CTT'', ''TGC'', ''TGG'', ''GAT'', ''ATT''] 2 =
      Inr (''CTTTGCTGGGATCATT'', [''CTT'', ''TGC'', ''TGG'', ''GAT'', ''CATT''])"
    by (rule greedy_scs_six_reads_run) simp
  have pick: "pick_max_overlap_index rev [''CAT'', ''CTT'', ''TGC'', ''TGG'', ''GAT'', ''ATT''] 2 =
      Inr (Some ''CAT'', Some ''ATT'', 2)"
    by (rule pick_six_reads) simp
  from greedy_scs_using_index_reads_after [OF run] pick
  show ?thesis by simp
qed

section \<open>Properties of the edit distance\<close>

text \<open>
  Two matrices of the same shape, \<open>m + 1\<close> rows of \<open>n + 1\<close> cells, the first below the
  second in every cell.  Every step of the two functions keeps their matrices related.
\<close>

definition mat_le :: "nat \<Rightarrow> nat \<Rightarrow> matrix \<Rightarrow> matrix \<Rightarrow> bool" where
  "mat_le m n A B \<longleftrightarrow>
     length A = Suc m \<and> length B = Suc m \<and>
     (\<forall>i\<le>m. length (A ! i) = Suc n \<and> length (B ! i) = Suc n \<and>
        (\<forall>j\<le>n. A ! i ! j \<le> B ! i ! j))"

lemma for_loop_related:
  assumes "R a b"
    and "\<And>i a b. i \<in> set todo \<Longrightarrow> R a b \<Longrightarrow> \<exists>a' b'. f i a = Inr a' \<and> g i b = Inr b' \<and> R a' b'"
  shows "\<exists>a' b'. for_loop todo f a = Inr a' \<and> for_loop todo g b = Inr b' \<and> R a' b'"
  using assms
proof (induction todo arbitrary: a b)
  case Nil
  then show ?case by simp
next
  case (Cons i todo)
  from Cons.prems(2) [of i a b] Cons.prems(1)
  obtain a' b' where step: "f i a = Inr a'" "g i b = Inr b'" "R a' b'"
    by auto
  from Cons.IH [OF step(3)] Cons.prems(2)
  have "\<exists>a'' b''. for_loop todo f a' = Inr a'' \<and> for_loop todo g b' = Inr b'' \<and> R a'' b''"
    by simp
  with step show ?case by simp
qed

lemma get_cell_inside:
  "mat_le m n A B \<Longrightarrow> i \<le> m \<Longrightarrow> j \<le> n \<Longrightarrow>
     get_cell A i j = Inr (A ! i ! j) \<and> get_cell B i j = Inr (B ! i ! j)"
  by (simp add: mat_le_def get_cell_def and_then_def getitem_def)

lemma set_cell_related:
  assumes "mat_le m n A B" and "i \<le> m" and "j \<le> n" and "v \<le> w"
  shows "\<exists>A' B'. set_cell A i j v = Inr A' \<and> set_cell B i j w = Inr B' \<and> mat_le m n A' B'"
proof -
  from assms(1-3) have run:
    "set_cell A i j v = Inr (A[i := (A ! i)[j := v]])"
    "set_cell B i j w = Inr (B[i := (B ! i)[j := w]])"
    by (simp_all add: mat_le_def set_cell_def and_then_def getitem_def)
  have "mat_le m n (A[i := (A ! i)[j := v]]) (B[i := (B ! i)[j := w]])"
    unfolding mat_le_def
  proof (intro conjI allI impI)
    fix i' j' assume "i' \<le> m" "j' \<le> n"
    with assms show "A[i := (A ! i)[j := v]] ! i' ! j' \<le> B[i := (B ! i)[j := w]] ! i' ! j'"
      by (cases "i' = i"; cases "j' = j") (simp_all add: mat_le_def)
  qed (use assms in \<open>auto simp: mat_le_def nth_list_update\<close>)
  with run show ?thesis by simp
qed

lemma fill_cell_related:
  assumes rel: "mat_le (length x) (length y) A B"
    and i: "1 \<le> i" "i \<le> length x" and j: "1 \<le> j" "j \<le> length y"
  shows "\<exists>A' B'. fill_cell x y i j A = Inr A' \<and> fill_cell x y i j B = Inr B' \<and>
           mat_le (length x) (length y) A' B'"
proof -
  have cells:
    "get_cell A i (j - 1) = Inr (A ! i ! (j - 1))" "get_cell B i (j - 1) = Inr (B ! i ! (j - 1))"
    "get_cell A (i - 1) j = Inr (A ! (i - 1) ! j)" "get_cell B (i - 1) j = Inr (B ! (i - 1) ! j)"
    "get_cell A (i - 1) (j - 1) = Inr (A ! (i - 1) ! (j - 1))"
    "get_cell B (i - 1) (j - 1) = Inr (B ! (i - 1) ! (j - 1))"
    using get_cell_inside [OF rel, of i "j - 1"] get_cell_inside [OF rel, of "i - 1" j]
      get_cell_inside [OF rel, of "i - 1" "j - 1"] i j
    by simp_all
  have chars: "getitem x (i - 1) = Inr (x ! (i - 1))" "getitem y (j - 1) = Inr (y ! (j - 1))"
    using i j by (simp_all add: getitem_def)
  have le: "A ! i ! (j - 1) \<le> B ! i ! (j - 1)" "A ! (i - 1) ! j \<le> B ! (i - 1) ! j"
    "A ! (i - 1) ! (j - 1) \<le> B ! (i - 1) ! (j - 1)"
    using rel i j by (simp_all add: mat_le_def)
  let ?v = "\<lambda>D. min (D ! i ! (j - 1) + 1)
     (min (D ! (i - 1) ! j + 1)
        (if x ! (i - 1) = y ! (j - 1) then D ! (i - 1) ! (j - 1) else D ! (i - 1) ! (j - 1) + 1))"
  have mono: "?v A \<le> ?v B"
    by (intro min.mono) (use le in simp_all)
  have related: "\<exists>A' B'. set_cell A i j (?v A) = Inr A' \<and> set_cell B i j (?v B) = Inr B' \<and>
      mat_le (length x) (length y) A' B'"
    using rel i(2) j(2) mono by (rule set_cell_related)
  have fill_A: "fill_cell x y i j A = set_cell A i j (?v A)"
    unfolding fill_cell_def cells chars and_then_def by simp
  have fill_B: "fill_cell x y i j B = set_cell B i j (?v B)"
    unfolding fill_cell_def cells chars and_then_def by simp
  show ?thesis
    unfolding fill_A fill_B by (rule related)
qed

lemma fill_matrix_related:
  assumes "mat_le (length x) (length y) A B"
  shows "\<exists>A' B'. fill_matrix x y A = Inr A' \<and> fill_matrix x y B = Inr B' \<and>
           mat_le (length x) (length y) A' B'"
  unfolding fill_matrix_def
proof (rule for_loop_related [where R = "mat_le (length x) (length y)", OF assms])
  fix i a b
  assume i: "i \<in> set [1..<length x + 1]" and rel: "mat_le (length x) (length y) a b"
  show "\<exists>a' b'. for_loop [1..<length y + 1] (fill_cell x y i) a = Inr a' \<and>
          for_loop [1..<length y + 1] (fill_cell x y i) b = Inr b' \<and>
          mat_le (length x) (length y) a' b'"
  proof (rule for_loop_related [where R = "mat_le (length x) (length y)", OF rel])
    fix j c d
    assume j: "j \<in> set [1..<length y + 1]" and cd: "mat_le (length x) (length y) c d"
    from i j have "1 \<le> i" "i \<le> length x" "1 \<le> j" "j \<le> length y"
      by auto
    with cd show "\<exists>c' d'. fill_cell x y i j c = Inr c' \<and> fill_cell x y i j d = Inr d' \<and>
            mat_le (length x) (length y) c' d'"
      by (rule fill_cell_related)
  qed
qed

lemma new_matrix_related: "mat_le (length x) (length y) (new_matrix x y) (new_matrix x y)"
  by (simp add: mat_le_def new_matrix_def range_py_def)

lemma fold_min_le: "fold min vs (v :: int) \<le> v"
proof (induction vs arbitrary: v)
  case Nil
  show ?case by simp
next
  case (Cons w vs)
  have "fold min vs (min w v) \<le> min w v" by (rule Cons.IH)
  also have "\<dots> \<le> v" by simp
  finally show ?case by simp
qed

lemma fold_min_le_last: "vs \<noteq> [] \<Longrightarrow> fold min vs (v :: int) \<le> last vs"
proof (induction vs arbitrary: v)
  case Nil
  then show ?case by simp
next
  case (Cons w vs)
  show ?case
  proof (cases "vs = []")
    case True
    then show ?thesis by simp
  next
    case False
    with Cons.IH [of "min w v"] show ?thesis by simp
  qed
qed

lemma min_py_le_last: "row \<noteq> [] \<Longrightarrow> \<exists>v. min_py row = Inr v \<and> v \<le> last row"
  by (cases row) (auto simp: fold_min_le fold_min_le_last)

lemma last_row_cell:
  assumes "length D = Suc m" and "length (D ! m) = Suc n"
  shows "D \<noteq> []" and "last D = D ! m" and "last D \<noteq> []" and "last (last D) = D ! m ! n"
proof -
  from assms(1) show nonempty: "D \<noteq> []" by auto
  then show row: "last D = D ! m"
    using assms(1) by (simp add: last_conv_nth)
  from assms(2) row show "last D \<noteq> []" by auto
  then show "last (last D) = D ! m ! n"
    using assms(2) row by (simp add: last_conv_nth)
qed

text \<open>
  C8. \<open>editDist_min p t\<close> and \<open>editDist_xy p t\<close> both return a number, and the first is at
  most the second.  This holds for every pattern and text, so in particular whenever
  \<^verbatim>\<open>len(t) >= len(p)\<close>.
\<close>

theorem editDist_min_le_editDist_xy:
  "\<exists>a b. editDist_min p t = Inr a \<and> editDist_xy p t = Inr b \<and> a \<le> b"
proof -
  let ?R = "mat_le (length p) (length t)"
  let ?col = "\<lambda>i D. set_cell D i 0 (int i)"
  have "\<exists>A B. for_loop (range_py (int (length p) + 1)) ?col (new_matrix p t) = Inr A \<and>
          for_loop (range_py (int (length p) + 1)) ?col (new_matrix p t) = Inr B \<and> ?R A B"
  proof (rule for_loop_related [where R = ?R, OF new_matrix_related])
    fix i a b
    assume "i \<in> set (range_py (int (length p) + 1))" and "?R a b"
    then have "?R a b" "i \<le> length p" "0 \<le> length t" "int i \<le> int i"
      by (auto simp: range_py_def)
    then show "\<exists>a' b'. set_cell a i 0 (int i) = Inr a' \<and> set_cell b i 0 (int i) = Inr b' \<and> ?R a' b'"
      by (rule set_cell_related)
  qed
  then obtain C where col: "for_loop (range_py (int (length p) + 1)) ?col (new_matrix p t) = Inr C"
    and C: "?R C C"
    by auto
  have "\<exists>A B. for_loop (range_py (int (length t) + 1)) (\<lambda>i D. set_cell D 0 i 0) C = Inr A \<and>
          for_loop (range_py (int (length t) + 1)) (\<lambda>i D. set_cell D 0 i (int i)) C = Inr B \<and> ?R A B"
  proof (rule for_loop_related [where R = ?R, OF C])
    fix i a b
    assume "i \<in> set (range_py (int (length t) + 1))" and "?R a b"
    then have "?R a b" "0 \<le> length p" "i \<le> length t" "0 \<le> int i"
      by (auto simp: range_py_def)
    then show "\<exists>a' b'. set_cell a 0 i 0 = Inr a' \<and> set_cell b 0 i (int i) = Inr b' \<and> ?R a' b'"
      by (rule set_cell_related)
  qed
  then obtain A B where row:
    "for_loop (range_py (int (length t) + 1)) (\<lambda>i D. set_cell D 0 i 0) C = Inr A"
    "for_loop (range_py (int (length t) + 1)) (\<lambda>i D. set_cell D 0 i (int i)) C = Inr B"
    and AB: "?R A B"
    by auto
  from fill_matrix_related [OF AB] obtain A' B' where fill:
    "fill_matrix p t A = Inr A'" "fill_matrix p t B = Inr B'" and AB': "?R A' B'"
    by auto
  from AB' have dims: "length A' = Suc (length p)" "length (A' ! length p) = Suc (length t)"
    "length B' = Suc (length p)" "length (B' ! length p) = Suc (length t)"
    and corner: "A' ! length p ! length t \<le> B' ! length p ! length t"
    by (simp_all add: mat_le_def)
  note shapeA = last_row_cell [OF dims(1,2)] and shapeB = last_row_cell [OF dims(3,4)]
  from min_py_le_last [OF shapeA(3)] obtain v where v: "min_py (last A') = Inr v" "v \<le> last (last A')"
    by auto
  have "last (last A') \<le> last (last B')"
    using corner shapeA(4) shapeB(4) by simp
  with v have "v \<le> last (last B')" by simp
  moreover have "editDist_min p t = Inr v"
    using col row(1) fill(1) shapeA(1) v(1)
    by (simp add: editDist_min_def and_then_def last_item_def slice_from_def slice_bound_def)
  moreover have "editDist_xy p t = Inr (last (last B'))"
    using col row(2) fill(2) shapeB(1,3)
    by (simp add: editDist_xy_def and_then_def last_item_def)
  ultimately show ?thesis by simp
qed

section \<open>Properties of approximate matching\<close>

text \<open>
  What \<open>bm_while\<close> can return: \<^verbatim>\<open>None\<close> when the loop condition is false at entry, and
  otherwise only an exception raised by the comparison.  It never returns offsets, and
  where the condition holds and the comparison raises nothing it does not return.
\<close>

lemma bm_while_returns:
  assumes "bm_while p p_bm t i occurrences = Some r"
  shows "r = Inr NoneValue \<and> \<not> int i < int (length t) - int (length p) + 1 \<or>
       (\<exists>e. r = Inl e \<and> bm_compare p p_bm t i (rev [0..<length p]) (1, False) = Inl e)"
proof (rule bm_while.raw_induct
    [where P = "\<lambda>p p_bm t i occurrences r.
       r = Inr NoneValue \<and> \<not> int i < int (length t) - int (length p) + 1 \<or>
       (\<exists>e. r = Inl e \<and> bm_compare p p_bm t i (rev [0..<length p]) (1, False) = Inl e)",
     OF _ assms])
  fix f p p_bm t i occurrences r
  assume ih: "\<And>p p_bm t i occurrences r. f p p_bm t i occurrences = Some r \<Longrightarrow>
      r = Inr NoneValue \<and> \<not> int i < int (length t) - int (length p) + 1 \<or>
       (\<exists>e. r = Inl e \<and> bm_compare p p_bm t i (rev [0..<length p]) (1, False) = Inl e)"
    and body: "(if int i < int (length t) - int (length p) + 1 then
        (case bm_compare p p_bm t i (rev [0..<length p]) (1, False) of
           Inl e \<Rightarrow> Some (Inl e)
         | Inr (shift, mismatched) \<Rightarrow> f p p_bm t i occurrences)
      else Some (Inr NoneValue)) = Some r"
  show "r = Inr NoneValue \<and> \<not> int i < int (length t) - int (length p) + 1 \<or>
       (\<exists>e. r = Inl e \<and> bm_compare p p_bm t i (rev [0..<length p]) (1, False) = Inl e)"
  proof (cases "int i < int (length t) - int (length p) + 1")
    case False
    with body show ?thesis by simp
  next
    case True
    show ?thesis
    proof (cases "bm_compare p p_bm t i (rev [0..<length p]) (1, False)")
      case (Inl e)
      with True body show ?thesis by auto
    next
      case (Inr sm)
      with True body have "f p p_bm t i occurrences = Some r"
        by (simp split: prod.splits)
      from ih [OF this] True show ?thesis by simp
    qed
  qed
qed


lemma bm_while_stuck:
  assumes "int i < int (length t) - int (length p) + 1"
    and "bm_compare p p_bm t i (rev [0..<length p]) (1, False) = Inr sm"
  shows "bm_while p p_bm t i occurrences = None"
proof (cases "bm_while p p_bm t i occurrences")
  case None
  then show ?thesis .
next
  case (Some r)
  from bm_while_returns [OF this] assms show ?thesis by auto
qed

lemma boyer_moore_exact_matching_no_offsets:
  "boyer_moore_exact_matching p p_bm t \<noteq> Some (Inr (Offsets occurrences))"
  using bm_while_returns [of p p_bm t 0 "[]" "Inr (Offsets occurrences)"]
  by (auto simp: boyer_moore_exact_matching_def)

lemma approximate_matching_BoyerMoore_no_offsets:
  assumes "0 \<le> n"
  shows "approximate_matching p t n ''BoyerMoore'' \<noteq> Some (Inr offsets)"
proof -
  from assms have todo: "range_py (n + 1) = 0 # [1..<nat (n + 1)]"
    by (simp add: range_py_def upt_conv_Cons)
  let ?seg = "slice p (int 0 * (int (length p) div (n + 1)))
     (min ((int 0 + 1) * (int (length p) div (n + 1))) (int (length p)))"
  have "boyer_moore_exact_matching ?seg (BoyerMoore ?seg) t \<noteq> Some (Inr (Offsets occurrences))"
    for occurrences
    by (rule boyer_moore_exact_matching_no_offsets)
  then have "approximate_matching_run p t n ''BoyerMoore'' \<noteq> Some (Inr state)" for state
    using assms
    by (auto simp: approximate_matching_run_def todo segment_matches_def
        split: option.splits sum.splits matches.splits)
  then show ?thesis
    by (cases "approximate_matching_run p t n ''BoyerMoore''")
      (auto simp: approximate_matching_def map_sum_def split: sum.splits)
qed

text \<open>
  C1 (failing input). The pattern ACGT aligns with the text ACTT at offset 0 with
  exactly one mismatch (the naive matcher finds offset 0 with budget 1 and nothing with
  budget 0), yet \<open>approximate_matching\<close> with method BoyerMoore and \<open>n = 1\<close> does not
  return: the first segment AC matches at \<open>i = 0\<close>, and the loop of
  \<open>boyer_moore_exact_matching\<close> never moves \<open>i\<close>.
\<close>

theorem approximate_matching_BoyerMoore_misses_alignment:
  "naive_n_mm ''ACGT'' ''ACTT'' 1 = Inr [0] \<and> naive_n_mm ''ACGT'' ''ACTT'' 0 = Inr [] \<and>
   approximate_matching ''ACGT'' ''ACTT'' 1 ''BoyerMoore'' = None"
proof -
  have "bm_compare ''AC'' (BoyerMoore ''AC'') ''ACTT'' 0 (rev [0..<length ''AC'']) (1, False) =
      Inr (1, False)"
    by code_simp
  then have "bm_while ''AC'' (BoyerMoore ''AC'') ''ACTT'' 0 [] = None"
    by (intro bm_while_stuck) simp_all
  then have "approximate_matching ''ACGT'' ''ACTT'' 1 ''BoyerMoore'' = None"
    by (simp add: approximate_matching_def approximate_matching_run_def range_py_def upt_rec
        segment_matches_def boyer_moore_exact_matching_def slice_def slice_bound_def)
  moreover have "naive_n_mm ''ACGT'' ''ACTT'' 1 = Inr [0]" "naive_n_mm ''ACGT'' ''ACTT'' 0 = Inr []"
    by code_simp+
  ultimately show ?thesis by simp
qed

text \<open>
  The same text and pattern with the substring index, and a two-letter pattern with the
  subsequence index: the index of \<open>SubseqIndex(text, 2, 3)\<close> needs a span of four
  symbols, so the text AC has no entry and the exact occurrence at offset 0 is not found.
\<close>

lemma approximate_matching_SubStringIndex_example:
  "approximate_matching ''ACGT'' ''ACTT'' 1 ''SubStringIndex'' = Some (Inr [0])"
  by code_simp

lemma approximate_matching_SubSeqIndex_example:
  "approximate_matching ''AC'' ''AC'' 0 ''SubSeqIndex'' = Some (Inr [])"
  by code_simp

text \<open>
  The run of the notebook's last cell: eight offsets from 54 raw segment hits.
\<close>

lemma approximate_matching_run_notebook:
  "approximate_matching_run ''AGTATCGCCT'' ''AGTCATGGATAGGATGGGCCCAAATAC'' 7 ''SubStringIndex'' =
     Some (Inr ([0, 10, 13, 5, 11, 15, 12, 1], 54))"
  by code_simp

text \<open>
  C2 (failing input). On the pattern A, the text A and \<open>n = 0\<close> the substring index
  returns the offset 0, and method BoyerMoore does not return.
\<close>

theorem approximate_matching_BoyerMoore_differs:
  "approximate_matching ''A'' ''A'' 0 ''SubStringIndex'' = Some (Inr [0]) \<and>
   approximate_matching ''A'' ''A'' 0 ''BoyerMoore'' = None"
proof -
  have "bm_compare ''A'' (BoyerMoore ''A'') ''A'' 0 (rev [0..<length ''A'']) (1, False) =
      Inr (1, False)"
    by code_simp
  then have "bm_while ''A'' (BoyerMoore ''A'') ''A'' 0 [] = None"
    by (intro bm_while_stuck) simp_all
  then have "approximate_matching ''A'' ''A'' 0 ''BoyerMoore'' = None"
    by (simp add: approximate_matching_def approximate_matching_run_def range_py_def
        segment_matches_def boyer_moore_exact_matching_def slice_def slice_bound_def)
  moreover have "approximate_matching ''A'' ''A'' 0 ''SubStringIndex'' = Some (Inr [0])"
    by code_simp
  ultimately show ?thesis by simp
qed

text \<open>
  C6 (as stated, refuted). With \<open>n = -2\<close> the loop body, and the \<^verbatim>\<open>raise\<close> in it, is never
  reached: the call with the unknown method Naive returns the empty list.  With
  \<open>n = 0\<close> the exception raised is Python's base \<^verbatim>\<open>Exception\<close> with a message, the only
  exception the function raises by itself.
\<close>

theorem approximate_matching_invalid_method_returns:
  "approximate_matching ''ACGT'' ''ACGT'' (- 2) ''Naive'' = Some (Inr []) \<and>
   approximate_matching ''ACGT'' ''ACGT'' 0 ''Naive'' =
     Some (Inl (Exception ''Not a valid method!''))"
  by code_simp

text \<open>
  C6 (amended). For a method outside BoyerMoore, SubStringIndex, SubSeqIndex, and every
  pattern and text: when \<open>n \<ge> 0\<close> the call raises \<^verbatim>\<open>Exception('Not a valid method!')\<close> in
  its first iteration and returns nothing; when \<open>n = -1\<close> it raises
  \<^verbatim>\<open>ZeroDivisionError\<close>; when \<open>n < -1\<close> it returns the empty list.
\<close>

theorem approximate_matching_invalid_method:
  assumes "method \<notin> {''BoyerMoore'', ''SubStringIndex'', ''SubSeqIndex''}"
  shows "approximate_matching p t n method =
     (if 0 \<le> n then Some (Inl (Exception ''Not a valid method!''))
      else if n = - 1 then Some (Inl ZeroDivisionError)
      else Some (Inr []))"
proof -
  from assms have raise: "segment_matches method p t start seg_end =
      Some (Inl (Exception ''Not a valid method!''))" for start seg_end
    by (simp add: segment_matches_def)
  show ?thesis
  proof (cases "0 \<le> n")
    case True
    then have "range_py (n + 1) = 0 # [1..<nat (n + 1)]"
      by (simp add: range_py_def upt_conv_Cons)
    with True show ?thesis
      by (simp add: approximate_matching_def approximate_matching_run_def raise)
  next
    case False
    then show ?thesis
      by (auto simp: approximate_matching_def approximate_matching_run_def range_py_def)
  qed
qed

theorem approximate_matching_invalid_method_witness:
  "approximate_matching ''GATTACA'' ''TTGATTACATT'' 2 ''Hamming'' =
     Some (Inl (Exception ''Not a valid method!'')) \<and>
   approximate_matching ''GATTACA'' ''TTGATTACATT'' (- 1) ''Hamming'' = Some (Inl ZeroDivisionError) \<and>
   approximate_matching ''GATTACA'' ''TTGATTACATT'' (- 3) ''Hamming'' = Some (Inr [])"
  using approximate_matching_invalid_method [of "''Hamming''" "''GATTACA''" "''TTGATTACATT''" 2]
    approximate_matching_invalid_method [of "''Hamming''" "''GATTACA''" "''TTGATTACATT''" "- 1"]
    approximate_matching_invalid_method [of "''Hamming''" "''GATTACA''" "''TTGATTACATT''" "- 3"]
  by simp

section \<open>Pigeonhole soundness with the substring index\<close>

text \<open>
  The number of positions \<open>j\<close> of \<open>js\<close> at which the pattern differs from the text when
  the pattern starts at offset \<open>b\<close>.
\<close>

definition mismatch_count :: "string \<Rightarrow> string \<Rightarrow> nat \<Rightarrow> nat list \<Rightarrow> nat" where
  "mismatch_count p t b js = length (filter (\<lambda>j. p ! j \<noteq> t ! (b + j)) js)"

lemma mismatch_count_simps:
  "mismatch_count p t b [] = 0"
  "mismatch_count p t b (j # js) = (if p ! j \<noteq> t ! (b + j) then 1 else 0) + mismatch_count p t b js"
  "mismatch_count p t b (js @ ks) = mismatch_count p t b js + mismatch_count p t b ks"
  by (simp_all add: mismatch_count_def)

lemma count_mismatches_inside:
  assumes "\<forall>j\<in>set js. j < length p" and "b + length p \<le> length t"
  shows "\<exists>c. count_mismatches p t n (int b) (map int js) mm = Inr c \<and>
           (mm + int (mismatch_count p t b js) \<le> n \<longrightarrow> c = mm + int (mismatch_count p t b js))"
  using assms(1)
proof (induction js arbitrary: mm)
  case Nil
  show ?case by (simp add: mismatch_count_simps)
next
  case (Cons j js)
  from Cons.prems have j: "j < length p" and rest: "\<forall>j\<in>set js. j < length p"
    by simp_all
  from j assms(2) have reads:
    "getitem_int p (int j) = Inr (p ! j)" "getitem_int t (int b + int j) = Inr (t ! (b + j))"
    by (simp_all add: getitem_int_def getitem_def nat_add_distrib)
  show ?case
  proof (cases "p ! j \<noteq> t ! (b + j)")
    case False
    with Cons.IH [OF rest, of mm] reads show ?thesis
      by (simp add: and_then_def mismatch_count_simps)
  next
    case True
    show ?thesis
    proof (cases "mm + 1 > n")
      case over: True
      with True reads show ?thesis
        by (simp add: and_then_def mismatch_count_simps)
    next
      case False
      with Cons.IH [OF rest, of "mm + 1"] True reads show ?thesis
        by (simp add: and_then_def mismatch_count_simps add.assoc)
    qed
  qed
qed

lemma range_from_nat: "range_from (int a) (int b) = map int [a..<b]"
proof -
  have "map (\<lambda>d. int a + int d) [0..<b - a] = map int (map (\<lambda>d. a + d) [0..<b - a])"
    by simp
  also have "map (\<lambda>d. a + d) [0..<b - a] = [a..<b]"
    by (induction b) (auto simp: Suc_diff_le)
  finally show ?thesis
    by (simp add: range_from_def nat_diff_distrib' flip: of_nat_diff)
qed


lemma verify_hit_result:
  assumes "s \<le> length p"
  shows "\<exists>all'. verify_hit p t n (int s) (int e) m all_matches = Inr all' \<and>
           set all_matches \<subseteq> set all' \<and>
           (s \<le> m \<and> m - s + length p \<le> length t \<and>
            int (mismatch_count p t (m - s) [0..<s]) +
              int (mismatch_count p t (m - s) [e..<length p]) \<le> n
              \<longrightarrow> int m - int s \<in> set all')"
proof (cases "int m < int s \<or> int m - int s + int (length p) > int (length t)")
  case True
  then have outside: "\<not> (s \<le> m \<and> m - s + length p \<le> length t)"
    by linarith
  have run: "verify_hit p t n (int s) (int e) m all_matches = Inr all_matches"
    using True by (simp add: verify_hit_def)
  show ?thesis
  proof (intro exI conjI impI)
    show "verify_hit p t n (int s) (int e) m all_matches = Inr all_matches"
      by (rule run)
    show "set all_matches \<subseteq> set all_matches"
      by simp
    assume "s \<le> m \<and> m - s + length p \<le> length t \<and>
      int (mismatch_count p t (m - s) [0..<s]) +
        int (mismatch_count p t (m - s) [e..<length p]) \<le> n"
    with outside show "int m - int s \<in> set all_matches"
      by blast
  qed
next
  case False
  then have inside: "s \<le> m" "(m - s) + length p \<le> length t"
    by linarith+
  then have base: "int m - int s = int (m - s)"
    by simp
  from assms have left: "\<forall>j\<in>set [0..<s]. j < length p"
    by simp
  have right: "\<forall>j\<in>set [e..<length p]. j < length p"
    by simp
  let ?l = "int (mismatch_count p t (m - s) [0..<s])"
  let ?r = "int (mismatch_count p t (m - s) [e..<length p])"
  from count_mismatches_inside [OF left inside(2), of n 0]
  obtain c1 where c1: "count_mismatches p t n (int (m - s)) (map int [0..<s]) 0 = Inr c1"
    and c1_eq: "?l \<le> n \<longrightarrow> c1 = ?l"
    by auto
  from count_mismatches_inside [OF right inside(2), of n c1]
  obtain c2 where c2: "count_mismatches p t n (int (m - s)) (map int [e..<length p]) c1 = Inr c2"
    and c2_eq: "c1 + ?r \<le> n \<longrightarrow> c2 = c1 + ?r"
    by auto
  have ranges: "range_from 0 (int s) = map int [0..<s]"
    "range_from (int e) (int (length p)) = map int [e..<length p]"
    using range_from_nat [of 0 s] range_from_nat [of e "length p"] by simp_all
  have run: "verify_hit p t n (int s) (int e) m all_matches =
      Inr (if c2 \<le> n then add_offset all_matches (int m - int s) else all_matches)"
  proof -
    have guard: "\<not> (int m < int s \<or> int m - int s + int (length p) > int (length t))"
      by (rule False)
    show ?thesis
      unfolding verify_hit_def if_not_P [OF guard] ranges
      unfolding base c1 c2 and_then_def
      by (simp add: base c2)
  qed
  show ?thesis
  proof (intro exI conjI impI)
    show "verify_hit p t n (int s) (int e) m all_matches =
      Inr (if c2 \<le> n then add_offset all_matches (int m - int s) else all_matches)"
      by (rule run)
    show "set all_matches
      \<subseteq> set (if c2 \<le> n then add_offset all_matches (int m - int s) else all_matches)"
      by (simp add: add_offset_def subset_insertI)
    assume "s \<le> m \<and> m - s + length p \<le> length t \<and> ?l + ?r \<le> n"
    then have sum: "?l + ?r \<le> n" by simp
    then have "?l \<le> n" by linarith
    with c1_eq have "c1 = ?l" by simp
    with c2_eq sum have "c2 \<le> n" by simp
    then show "int m - int s
      \<in> set (if c2 \<le> n then add_offset all_matches (int m - int s) else all_matches)"
      by (simp add: add_offset_def)
  qed
qed


lemma for_loop_grows:
  assumes "\<And>m all. \<exists>all'. f m all = Inr all' \<and> set all \<subseteq> set all' \<and> (good m \<longrightarrow> x \<in> set all')"
  shows "\<exists>all'. for_loop ms f all = Inr all' \<and> set all \<subseteq> set all' \<and>
           ((\<exists>m\<in>set ms. good m) \<longrightarrow> x \<in> set all')"
proof (induction ms arbitrary: all)
  case Nil
  show ?case by simp
next
  case (Cons m ms)
  from assms [of m all] obtain mid where mid: "f m all = Inr mid" "set all \<subseteq> set mid"
    "good m \<longrightarrow> x \<in> set mid"
    by blast
  from Cons.IH [of mid] obtain all' where rest: "for_loop ms f mid = Inr all'"
    "set mid \<subseteq> set all'" "(\<exists>m\<in>set ms. good m) \<longrightarrow> x \<in> set all'"
    by blast
  have "for_loop (m # ms) f all = Inr all'"
    using mid(1) rest(1) by simp
  moreover have "set all \<subseteq> set all'"
    using mid(2) rest(2) by (rule subset_trans)
  moreover have "(\<exists>m'\<in>set (m # ms). good m') \<longrightarrow> x \<in> set all'"
    using mid(3) rest(2,3) by auto
  ultimately show ?case by blast
qed

lemma queryIndex_Index:
  "queryIndex seg t (Index t (int k)) =
     Offsets (filter (\<lambda>m. slice t (int m) (int m + int k) = seg)
                (range_py (int (length t) - int k + 1)))"
  by (simp add: queryIndex_def Index_def filter_map comp_def)

lemma slice_nat: "b \<le> length xs \<Longrightarrow> slice xs (int a) (int b) = take (b - a) (drop a xs)"
  by (simp add: slice_def slice_bound_def min_def)

lemma pigeonhole_segment:
  assumes few: "mismatch_count p t off [0..<length p] \<le> N"
    and fits: "Suc N * len \<le> length p"
  shows "\<exists>i\<le>N. \<forall>j. i * len \<le> j \<and> j < Suc i * len \<longrightarrow> p ! j = t ! (off + j)"
proof (rule ccontr)
  assume "\<not> ?thesis"
  then have "\<forall>i\<in>{..N}. \<exists>j. i * len \<le> j \<and> j < Suc i * len \<and> p ! j \<noteq> t ! (off + j)"
    by auto
  from bchoice [OF this] obtain f where
    f: "\<forall>i\<in>{..N}. i * len \<le> f i \<and> f i < Suc i * len \<and> p ! f i \<noteq> t ! (off + f i)"
    by blast
  let ?M = "{j. j < length p \<and> p ! j \<noteq> t ! (off + j)}"
  have card_M: "card ?M = mismatch_count p t off [0..<length p]"
  proof -
    have "?M = set (filter (\<lambda>j. p ! j \<noteq> t ! (off + j)) [0..<length p])"
      by auto
    moreover have "distinct (filter (\<lambda>j. p ! j \<noteq> t ! (off + j)) [0..<length p])"
      by simp
    ultimately show ?thesis
      unfolding mismatch_count_def by (simp only: distinct_card)
  qed
  have len_pos: "0 < len"
    using f by (cases len) auto
  have quotient: "f i div len = i" if "i \<le> N" for i
  proof -
    from f that have "i * len \<le> f i" "f i < Suc i * len" by auto
    then show ?thesis
      using len_pos by (simp add: div_nat_eqI mult.commute)
  qed
  have "inj_on f {..N}"
  proof (rule inj_onI)
    fix i k assume i: "i \<in> {..N}" and k: "k \<in> {..N}" and same: "f i = f k"
    from i have "i = f i div len"
      by (simp add: quotient)
    also have "\<dots> = f k div len"
      by (simp only: same)
    also from k have "\<dots> = k"
      by (simp add: quotient)
    finally show "i = k" .
  qed
  then have "card (f ` {..N}) = Suc N"
    by (simp add: card_image)
  moreover have "f ` {..N} \<subseteq> ?M"
  proof
    fix j assume "j \<in> f ` {..N}"
    then obtain i where i: "i \<le> N" "j = f i" by auto
    with f have less: "f i < Suc i * len" and differ: "p ! f i \<noteq> t ! (off + f i)" by auto
    note less
    also have "Suc i * len \<le> Suc N * len"
      using i(1) by (intro mult_le_mono1) simp
    also note fits
    finally have "f i < length p" .
    with differ i(2) show "j \<in> ?M"
      by simp
  qed
  then have "card (f ` {..N}) \<le> card ?M"
    by (intro card_mono) simp_all
  ultimately show False
    using few card_M by simp
qed


text \<open>
  Segment \<open>i\<close> of the pattern, of length \<open>len\<close>, agrees with the text under the alignment
  at \<open>off\<close>.
\<close>

definition segment_clean :: "string \<Rightarrow> string \<Rightarrow> nat \<Rightarrow> nat \<Rightarrow> nat \<Rightarrow> bool" where
  "segment_clean p t off len i \<longleftrightarrow>
     (\<forall>j. i * len \<le> j \<and> j < Suc i * len \<longrightarrow> p ! j = t ! (off + j))"

lemma mismatch_count_outside:
  assumes "s \<le> e" and "e \<le> length p"
  shows "mismatch_count p t off [0..<s] + mismatch_count p t off [e..<length p]
           \<le> mismatch_count p t off [0..<length p]"
proof -
  have "[0..<e] = [0..<s] @ [s..<e]"
    using upt_add_eq_append [of 0 s "e - s"] assms(1) by simp
  moreover have "[0..<length p] = [0..<e] @ [e..<length p]"
    using upt_add_eq_append [of 0 e "length p - e"] assms(2) by simp
  ultimately have "[0..<length p] = [0..<s] @ [s..<e] @ [e..<length p]"
    by simp
  then have "mismatch_count p t off [0..<length p] =
      mismatch_count p t off [0..<s] + mismatch_count p t off [s..<e] +
      mismatch_count p t off [e..<length p]"
    by (simp add: mismatch_count_simps(3) [symmetric])
  then show ?thesis by simp
qed

lemma clean_segment_occurs:
  assumes clean: "segment_clean p t off len i"
    and fits: "off + length p \<le> length t" and inside: "Suc i * len \<le> length p"
  shows "take len (drop (off + i * len) t) = take len (drop (i * len) p)"
proof (rule nth_equalityI)
  from fits inside show "length (take len (drop (off + i * len) t)) =
      length (take len (drop (i * len) p))"
    by simp
next
  fix q assume "q < length (take len (drop (off + i * len) t))"
  then have q: "q < len" by simp
  then have "i * len \<le> i * len + q" "i * len + q < Suc i * len"
    by simp_all
  with clean have "p ! (i * len + q) = t ! (off + (i * len + q))"
    unfolding segment_clean_def by blast
  with q fits inside show "take len (drop (off + i * len) t) ! q = take len (drop (i * len) p) ! q"
    by (simp add: add.assoc)
qed

lemma segment_step:
  assumes n: "0 \<le> n" and i: "i \<le> nat n"
    and fits: "off + length p \<le> length t"
    and few: "int (mismatch_count p t off [0..<length p]) \<le> n"
  defines "len \<equiv> length p div Suc (nat n)"
  defines "start \<equiv> int i * (int (length p) div (n + 1))"
  defines "seg_end \<equiv> min ((int i + 1) * (int (length p) div (n + 1))) (int (length p))"
  shows "\<exists>ms. segment_matches ''SubStringIndex'' p t start seg_end = Some (Inr (Offsets ms)) \<and>
           (\<forall>all. \<exists>all'. for_loop ms (verify_hit p t n start seg_end) all = Inr all' \<and>
              set all \<subseteq> set all' \<and>
              (segment_clean p t off len i \<longrightarrow> int off \<in> set all'))"
proof -
  have "n + 1 = int (Suc (nat n))"
    using n by simp
  then have L: "int (length p) div (n + 1) = int len"
    unfolding len_def by (simp only: zdiv_int)
  have inside: "Suc i * len \<le> length p"
  proof -
    have "Suc i * len \<le> Suc (nat n) * len"
      using i by (intro mult_le_mono1) simp
    also have "\<dots> \<le> length p"
      unfolding len_def by (rule times_div_less_eq_dividend)
    finally show ?thesis .
  qed
  then have low: "i * len \<le> length p" and order: "i * len \<le> Suc i * len"
    by simp_all
  have start: "start = int (i * len)"
    unfolding start_def L by simp
  have seg_end: "seg_end = int (Suc i * len)"
  proof -
    have "(int i + 1) * int len = int (Suc i * len)"
      by (simp add: algebra_simps)
    moreover have "int (Suc i * len) \<le> int (length p)"
      using inside by (simp only: of_nat_le_iff)
    ultimately show ?thesis
      unfolding seg_end_def L by (simp only: min_absorb1)
  qed
  have width: "int (Suc i * len) - int (i * len) = int len"
    by (simp add: algebra_simps)
  let ?seg = "slice p (int (i * len)) (int (Suc i * len))"
  have seg: "?seg = take len (drop (i * len) p)"
    using slice_nat [OF inside, of "i * len"] by simp
  let ?ms = "filter (\<lambda>m. slice t (int m) (int m + int len) = ?seg)
      (range_py (int (length t) - int len + 1))"
  have matches: "segment_matches ''SubStringIndex'' p t start seg_end = Some (Inr (Offsets ?ms))"
    unfolding segment_matches_def start seg_end width queryIndex_Index by simp
  have step: "\<exists>all'. verify_hit p t n start seg_end m all = Inr all' \<and> set all \<subseteq> set all' \<and>
      (segment_clean p t off len i \<and> m = off + i * len \<longrightarrow> int off \<in> set all')" for m all
  proof -
    from verify_hit_result [OF low, of t n "Suc i * len" m all]
    obtain all' where run: "verify_hit p t n (int (i * len)) (int (Suc i * len)) m all = Inr all'"
      and grows: "set all \<subseteq> set all'"
      and hit: "i * len \<le> m \<and> m - i * len + length p \<le> length t \<and>
        int (mismatch_count p t (m - i * len) [0..<i * len]) +
          int (mismatch_count p t (m - i * len) [Suc i * len..<length p]) \<le> n
        \<longrightarrow> int m - int (i * len) \<in> set all'"
      by blast
    have "int off \<in> set all'" if m: "m = off + i * len"
    proof -
      have base: "m - i * len = off" "i * len \<le> m" "int m - int (i * len) = int off"
        using m by simp_all
      have "int (mismatch_count p t off [0..<i * len]) +
          int (mismatch_count p t off [Suc i * len..<length p])
          \<le> int (mismatch_count p t off [0..<length p])"
        using mismatch_count_outside [OF order inside, of t off] by linarith
      with few have "int (mismatch_count p t off [0..<i * len]) +
          int (mismatch_count p t off [Suc i * len..<length p]) \<le> n"
        by linarith
      with hit base fits show ?thesis by simp
    qed
    with run grows show ?thesis
      unfolding start seg_end by blast
  qed
  have found: "off + i * len \<in> set ?ms" if clean: "segment_clean p t off len i"
  proof -
    have room: "off + i * len + len \<le> length t"
      using fits inside by simp
    then have "off + i * len \<in> set (range_py (int (length t) - int len + 1))"
      by (auto simp: range_py_def)
    moreover have "slice t (int (off + i * len)) (int (off + i * len) + int len) = ?seg"
      using slice_nat [OF room, of "off + i * len"] clean_segment_occurs [OF clean fits inside] seg
      by simp
    ultimately show ?thesis by simp
  qed
  have "\<exists>all'. for_loop ?ms (verify_hit p t n start seg_end) all = Inr all' \<and>
      set all \<subseteq> set all' \<and> (segment_clean p t off len i \<longrightarrow> int off \<in> set all')" for all
  proof -
    from for_loop_grows [of "verify_hit p t n start seg_end"
        "\<lambda>m. segment_clean p t off len i \<and> m = off + i * len" "int off" ?ms all, OF step]
    obtain all' where "for_loop ?ms (verify_hit p t n start seg_end) all = Inr all'"
      "set all \<subseteq> set all'"
      "(\<exists>m\<in>set ?ms. segment_clean p t off len i \<and> m = off + i * len) \<longrightarrow> int off \<in> set all'"
      by blast
    with found show ?thesis by blast
  qed
  with matches show ?thesis by blast
qed


lemma approximate_loop_SubStringIndex:
  assumes n: "0 \<le> n" and fits: "off + length p \<le> length t"
    and few: "int (mismatch_count p t off [0..<length p]) \<le> n"
    and todo: "\<forall>i\<in>set todo. i \<le> nat n"
  shows "\<exists>all' hits'.
    approximate_loop p t n ''SubStringIndex'' (int (length p) div (n + 1)) todo (all, hits) =
      Some (Inr (all', hits')) \<and>
    set all \<subseteq> set all' \<and>
    ((\<exists>i\<in>set todo. segment_clean p t off (length p div Suc (nat n)) i) \<longrightarrow> int off \<in> set all')"
  using todo
proof (induction todo arbitrary: all hits)
  case Nil
  show ?case by simp
next
  case (Cons i todo)
  from Cons.prems have i: "i \<le> nat n" and rest: "\<forall>i\<in>set todo. i \<le> nat n"
    by simp_all
  let ?start = "int i * (int (length p) div (n + 1))"
  let ?end = "min ((int i + 1) * (int (length p) div (n + 1))) (int (length p))"
  let ?len = "length p div Suc (nat n)"
  from segment_step [OF n i fits few]
  obtain ms where ms: "segment_matches ''SubStringIndex'' p t ?start ?end = Some (Inr (Offsets ms))"
    and loop: "\<And>all. \<exists>all'. for_loop ms (verify_hit p t n ?start ?end) all = Inr all' \<and>
      set all \<subseteq> set all' \<and> (segment_clean p t off ?len i \<longrightarrow> int off \<in> set all')"
    by blast
  from loop [of all] obtain mid where mid: "for_loop ms (verify_hit p t n ?start ?end) all = Inr mid"
    "set all \<subseteq> set mid" "segment_clean p t off ?len i \<longrightarrow> int off \<in> set mid"
    by blast
  from Cons.IH [OF rest, of mid "hits + int (length ms)"]
  obtain all' hits' where tail:
    "approximate_loop p t n ''SubStringIndex'' (int (length p) div (n + 1)) todo
       (mid, hits + int (length ms)) = Some (Inr (all', hits'))"
    "set mid \<subseteq> set all'"
    "(\<exists>i\<in>set todo. segment_clean p t off ?len i) \<longrightarrow> int off \<in> set all'"
    by blast
  have "approximate_loop p t n ''SubStringIndex'' (int (length p) div (n + 1)) (i # todo)
      (all, hits) = Some (Inr (all', hits'))"
    using ms mid(1) tail(1) by simp
  moreover have "set all \<subseteq> set all'"
    using mid(2) tail(2) by (rule subset_trans)
  moreover have "(\<exists>k\<in>set (i # todo). segment_clean p t off ?len k) \<longrightarrow> int off \<in> set all'"
    using mid(3) tail(2,3) by auto
  ultimately show ?case by blast
qed

text \<open>
  Pigeonhole soundness for the substring index: when the pattern aligns with the text at
  \<open>off\<close> with at most \<open>n\<close> mismatches, \<open>approximate_matching\<close> with method
  SubStringIndex returns a list that contains \<open>off\<close>.  The index and its query are the
  ones modelled from the spec.
\<close>

lemma approximate_matching_SubStringIndex_sound:
  assumes n: "0 \<le> n" and fits: "off + length p \<le> length t"
    and few: "int (mismatch_count p t off [0..<length p]) \<le> n"
  shows "\<exists>offsets. approximate_matching p t n ''SubStringIndex'' = Some (Inr offsets) \<and>
           int off \<in> set offsets"
proof -
  let ?len = "length p div Suc (nat n)"
  have "mismatch_count p t off [0..<length p] \<le> nat n"
    using few n by linarith
  moreover have "Suc (nat n) * ?len \<le> length p"
    by (rule times_div_less_eq_dividend)
  ultimately obtain i where i: "i \<le> nat n" and clean: "segment_clean p t off ?len i"
    using pigeonhole_segment [of p t off "nat n" ?len] unfolding segment_clean_def by blast
  have todo: "\<forall>i\<in>set (range_py (n + 1)). i \<le> nat n"
    using n by (auto simp: range_py_def)
  from i n have "i \<in> set (range_py (n + 1))"
    by (auto simp: range_py_def)
  with clean have some: "\<exists>i\<in>set (range_py (n + 1)). segment_clean p t off ?len i"
    by blast
  from approximate_loop_SubStringIndex [OF n fits few todo, of "[]" 0] some
  obtain all' hits' where
    "approximate_loop p t n ''SubStringIndex'' (int (length p) div (n + 1)) (range_py (n + 1))
       ([], 0) = Some (Inr (all', hits'))" "int off \<in> set all'"
    by blast
  moreover from n have "n + 1 \<noteq> 0" by simp
  ultimately show ?thesis
    by (simp add: approximate_matching_def approximate_matching_run_def)
qed

section \<open>The overlap function on its intended range\<close>

text \<open>\<open>sub\<close> occurs in \<open>a\<close> at position \<open>s\<close>, as \<^verbatim>\<open>a.find\<close> searches for it.\<close>

definition occurs_at :: "string \<Rightarrow> string \<Rightarrow> nat \<Rightarrow> bool" where
  "occurs_at a sub s \<longleftrightarrow>
     s + length sub \<le> length a \<and> take (length sub) (drop s a) = sub"

lemma occurs_at_fits: "occurs_at a sub s \<Longrightarrow> s + length sub \<le> length a"
  by (simp add: occurs_at_def)

lemma find_py_least:
  "(find_py a sub start = - 1 \<and> (\<forall>s\<ge>start. \<not> occurs_at a sub s)) \<or>
   (\<exists>s\<ge>start. find_py a sub start = int s \<and> occurs_at a sub s \<and>
      (\<forall>s'. start \<le> s' \<and> s' < s \<longrightarrow> \<not> occurs_at a sub s'))"
proof (induction a sub start rule: find_py.induct)
  case (1 a sub start)
  show ?case
  proof (cases "length a < start + length sub")
    case True
    then have "\<not> occurs_at a sub s" if "start \<le> s" for s
      using occurs_at_fits [of a sub s] that by auto
    moreover from True have "find_py a sub start = - 1"
      by (simp add: find_py.simps [of a sub start])
    ultimately show ?thesis by blast
  next
    case False
    note fits = this
    show ?thesis
    proof (cases "take (length sub) (drop start a) = sub")
      case True
      with fits have "find_py a sub start = int start"
        by (simp add: find_py.simps [of a sub start])
      moreover from True fits have "occurs_at a sub start"
        by (simp add: occurs_at_def)
      ultimately show ?thesis by auto
    next
      case False
      with fits have step: "find_py a sub start = find_py a sub (Suc start)"
        by (simp add: find_py.simps [of a sub start])
      from False have here: "\<not> occurs_at a sub start"
        by (simp add: occurs_at_def)
      have before: "\<not> occurs_at a sub s'" if "start \<le> s'" "s' < s"
        "\<forall>s'. Suc start \<le> s' \<and> s' < s \<longrightarrow> \<not> occurs_at a sub s'" for s s'
        using that here by (cases "s' = start") auto
      from "1.IH" [OF fits False] show ?thesis
      proof
        assume "find_py a sub (Suc start) = - 1 \<and> (\<forall>s\<ge>Suc start. \<not> occurs_at a sub s)"
        then have none: "find_py a sub (Suc start) = - 1" "\<forall>s\<ge>Suc start. \<not> occurs_at a sub s"
          by simp_all
        have "\<not> occurs_at a sub s" if "start \<le> s" for s
        proof (cases "s = start")
          case True
          with here show ?thesis by simp
        next
          case False
          with that have "Suc start \<le> s" by simp
          with none(2) show ?thesis by blast
        qed
        moreover have "find_py a sub start = - 1"
          using step none(1) by simp
        ultimately show ?thesis by blast
      next
        assume "\<exists>s\<ge>Suc start. find_py a sub (Suc start) = int s \<and> occurs_at a sub s \<and>
          (\<forall>s'. Suc start \<le> s' \<and> s' < s \<longrightarrow> \<not> occurs_at a sub s')"
        then obtain s where s: "Suc start \<le> s" "find_py a sub (Suc start) = int s"
          "occurs_at a sub s" "\<forall>s'. Suc start \<le> s' \<and> s' < s \<longrightarrow> \<not> occurs_at a sub s'"
          by blast
        have "start \<le> s" using s(1) by simp
        moreover have "find_py a sub start = int s" using step s(2) by simp
        moreover have "\<forall>s'. start \<le> s' \<and> s' < s \<longrightarrow> \<not> occurs_at a sub s'"
          using before s(4) by blast
        ultimately show ?thesis using s(3) by blast
      qed
    qed
  qed
qed


text \<open>
  A start position \<open>s\<close> at which the loop of \<open>overlap\<close> returns: the prefix
  \<^verbatim>\<open>b[:min_length]\<close> occurs in \<open>a\<close> at \<open>s\<close>, and \<open>b\<close> starts with \<^verbatim>\<open>a[s:]\<close>.
\<close>

definition candidate :: "string \<Rightarrow> string \<Rightarrow> int \<Rightarrow> nat \<Rightarrow> bool" where
  "candidate a b min_length s \<longleftrightarrow>
     occurs_at a (slice_to b min_length) s \<and> startswith b (drop s a)"

lemma overlap_loop_least:
  "(overlap_loop a b min_length start = 0 \<and> (\<forall>s\<ge>start. \<not> candidate a b min_length s)) \<or>
   (\<exists>s\<ge>start. overlap_loop a b min_length start = int (length a) - int s \<and>
      candidate a b min_length s \<and>
      (\<forall>s'. start \<le> s' \<and> s' < s \<longrightarrow> \<not> candidate a b min_length s'))"
proof (induction a b min_length start rule: overlap_loop.induct)
  case (1 a b min_length start)
  let ?sub = "slice_to b min_length"
  from find_py_least [of a ?sub start] show ?case
  proof
    assume "find_py a ?sub start = - 1 \<and> (\<forall>s\<ge>start. \<not> occurs_at a ?sub s)"
    then have "overlap_loop a b min_length start = 0"
      and "\<forall>s\<ge>start. \<not> candidate a b min_length s"
      by (simp_all add: overlap_loop.simps [of a b min_length start] candidate_def)
    then show ?thesis by blast
  next
    assume "\<exists>s\<ge>start. find_py a ?sub start = int s \<and> occurs_at a ?sub s \<and>
      (\<forall>s'. start \<le> s' \<and> s' < s \<longrightarrow> \<not> occurs_at a ?sub s')"
    then obtain s where s: "start \<le> s" "find_py a ?sub start = int s" "occurs_at a ?sub s"
      "\<forall>s'. start \<le> s' \<and> s' < s \<longrightarrow> \<not> occurs_at a ?sub s'"
      by blast
    have found: "find_py a ?sub start \<noteq> - 1"
      using s(2) by simp
    have inside: "s \<le> length a"
      using occurs_at_fits [OF s(3)] by simp
    then have suffix: "slice_from a (int s) = drop s a"
      by (simp add: slice_from_def slice_bound_def)
    have before: "\<forall>s'. start \<le> s' \<and> s' < s \<longrightarrow> \<not> candidate a b min_length s'"
      using s(4) by (simp add: candidate_def)
    show ?thesis
    proof (cases "startswith b (drop s a)")
      case True
      then have "overlap_loop a b min_length start = int (length a) - int s"
        using s(2) suffix by (simp add: overlap_loop.simps [of a b min_length start])
      moreover from True s(3) have "candidate a b min_length s"
        by (simp add: candidate_def)
      ultimately show ?thesis
        using s(1) before by blast
    next
      case False
      then have not_here: "\<not> candidate a b min_length s"
        by (simp add: candidate_def)
      from False have cond: "\<not> startswith b (slice_from a (find_py a ?sub start))"
        using s(2) suffix by simp
      have step: "overlap_loop a b min_length start = overlap_loop a b min_length (Suc s)"
        using False s(2) suffix
        by (simp add: overlap_loop.simps [of a b min_length start] nat_add_distrib)
      have next_start: "nat (find_py a ?sub start + 1) = Suc s"
        using s(2) by (simp add: nat_add_distrib)
      have upto: "\<not> candidate a b min_length s'" if "start \<le> s'" "s' \<le> s" for s'
        using that before not_here by (cases "s' = s") auto
      from "1.IH" [OF found cond] show ?thesis
        unfolding next_start
      proof
        assume "overlap_loop a b min_length (Suc s) = 0 \<and>
          (\<forall>s'\<ge>Suc s. \<not> candidate a b min_length s')"
        then have zero: "overlap_loop a b min_length (Suc s) = 0"
          and later: "\<forall>s'\<ge>Suc s. \<not> candidate a b min_length s'"
          by simp_all
        have "\<not> candidate a b min_length s'" if "start \<le> s'" for s'
        proof (cases "s' \<le> s")
          case True
          with that show ?thesis by (rule upto)
        next
          case False
          then have "Suc s \<le> s'" by simp
          with later show ?thesis by blast
        qed
        with step zero show ?thesis by simp
      next
        assume "\<exists>u\<ge>Suc s. overlap_loop a b min_length (Suc s) = int (length a) - int u \<and>
          candidate a b min_length u \<and>
          (\<forall>s'. Suc s \<le> s' \<and> s' < u \<longrightarrow> \<not> candidate a b min_length s')"
        then obtain u where u: "Suc s \<le> u"
          "overlap_loop a b min_length (Suc s) = int (length a) - int u"
          "candidate a b min_length u"
          "\<forall>s'. Suc s \<le> s' \<and> s' < u \<longrightarrow> \<not> candidate a b min_length s'"
          by blast
        have "\<not> candidate a b min_length s'" if "start \<le> s'" "s' < u" for s'
        proof (cases "s' \<le> s")
          case True
          with that(1) show ?thesis by (rule upto)
        next
          case False
          then have "Suc s \<le> s'" by simp
          with u(4) that(2) show ?thesis by blast
        qed
        moreover have "start \<le> u"
          using s(1) u(1) by simp
        ultimately show ?thesis
          using step u(2,3) by auto
      qed
    qed
  qed
qed


text \<open>The suffix of \<open>a\<close> of length \<open>l\<close> is a prefix of \<open>b\<close>.\<close>

definition is_overlap :: "string \<Rightarrow> string \<Rightarrow> nat \<Rightarrow> bool" where
  "is_overlap a b l \<longleftrightarrow> l \<le> length a \<and> l \<le> length b \<and> drop (length a - l) a = take l b"

lemma candidate_overlap:
  assumes m: "0 \<le> min_length" "nat min_length \<le> length b" and s: "s \<le> length a"
  shows "candidate a b min_length s \<longleftrightarrow>
           is_overlap a b (length a - s) \<and> nat min_length \<le> length a - s"
proof -
  let ?k = "nat min_length" and ?l = "length a - s"
  have sub: "slice_to b min_length = take ?k b" "length (slice_to b min_length) = ?k"
    using m by (simp_all add: slice_to_def slice_bound_def min_absorb1)
  have turn: "length a - ?l = s"
    using s by simp
  show ?thesis
  proof
    assume "candidate a b min_length s"
    then have fits: "s + ?k \<le> length a" and starts: "take ?l b = drop s a"
      using m(2) by (simp_all add: candidate_def occurs_at_def startswith_def sub(1) min_absorb2)
    from starts have "length (take ?l b) = ?l"
      by simp
    then have "?l \<le> length b"
      by simp
    with starts fits show "is_overlap a b ?l \<and> ?k \<le> ?l"
      by (simp add: is_overlap_def turn)
  next
    assume "is_overlap a b ?l \<and> ?k \<le> ?l"
    then have eq: "drop s a = take ?l b" and k: "?k \<le> ?l" and lb: "?l \<le> length b"
      by (simp_all add: is_overlap_def turn)
    from k s have fits: "s + ?k \<le> length a"
      by simp
    have "take ?k (drop s a) = take ?k (take ?l b)"
      by (simp only: eq)
    also have "\<dots> = take ?k b"
      using k by (simp add: min_absorb1)
    finally have "occurs_at a (slice_to b min_length) s"
      using fits m(2) by (simp add: occurs_at_def sub(1) min_absorb2)
    moreover have "startswith b (drop s a)"
      using eq lb by (simp add: startswith_def min_absorb2)
    ultimately show "candidate a b min_length s"
      by (simp add: candidate_def)
  qed
qed

text \<open>
  For \<open>0 \<le> min_length \<le> len(b)\<close> the function does what its docstring says: it returns
  the length of the longest suffix of \<open>a\<close> that is a prefix of \<open>b\<close> when some such overlap
  has at least \<open>min_length\<close> characters, and 0 otherwise.
\<close>

lemma overlap_longest:
  assumes m: "0 \<le> min_length" "nat min_length \<le> length b"
  shows "overlap a b min_length =
     (if \<exists>l. is_overlap a b l \<and> nat min_length \<le> l
      then int (Max {l. is_overlap a b l}) else 0)"
proof -
  have cand_fits: "s \<le> length a" if "candidate a b min_length s" for s
    using that occurs_at_fits [of a "slice_to b min_length" s] by (simp add: candidate_def)
  have to_cand: "candidate a b min_length (length a - l)"
    if "is_overlap a b l" "nat min_length \<le> l" for l
  proof -
    from that(1) have "l \<le> length a" by (simp add: is_overlap_def)
    then have "length a - (length a - l) = l" by simp
    with that show ?thesis
      using candidate_overlap [OF m, of "length a - l" a] by simp
  qed
  from overlap_loop_least [of a b min_length 0] show ?thesis
  proof
    assume "overlap_loop a b min_length 0 = 0 \<and> (\<forall>s\<ge>0. \<not> candidate a b min_length s)"
    then have zero: "overlap a b min_length = 0" and none: "\<And>s. \<not> candidate a b min_length s"
      by (simp_all add: overlap_def)
    from none to_cand have "\<not> (\<exists>l. is_overlap a b l \<and> nat min_length \<le> l)"
      by blast
    then show ?thesis
      unfolding zero by (simp only: if_False)
  next
    assume "\<exists>s\<ge>0. overlap_loop a b min_length 0 = int (length a) - int s \<and>
      candidate a b min_length s \<and> (\<forall>s'. 0 \<le> s' \<and> s' < s \<longrightarrow> \<not> candidate a b min_length s')"
    then obtain s where res: "overlap a b min_length = int (length a) - int s"
      and cand: "candidate a b min_length s"
      and least: "\<And>s'. s' < s \<Longrightarrow> \<not> candidate a b min_length s'"
      by (auto simp: overlap_def)
    from cand_fits [OF cand] have s: "s \<le> length a" .
    from cand have best: "is_overlap a b (length a - s)" "nat min_length \<le> length a - s"
      using candidate_overlap [OF m s] by simp_all
    have longest: "l \<le> length a - s" if "is_overlap a b l" for l
    proof (rule ccontr)
      assume "\<not> l \<le> length a - s"
      then have longer: "length a - s < l" by simp
      with best(2) have "nat min_length \<le> l" by simp
      from to_cand [OF that this] have "candidate a b min_length (length a - l)" .
      moreover from that have "l \<le> length a" by (simp add: is_overlap_def)
      with longer have "length a - l < s" by simp
      ultimately show False using least by blast
    qed
    have "finite {l. is_overlap a b l}"
      by (rule finite_subset [of _ "{..length a}"]) (auto simp: is_overlap_def)
    then have "Max {l. is_overlap a b l} = length a - s"
      using best(1) longest by (intro Max_eqI) simp_all
    moreover have "\<exists>l. is_overlap a b l \<and> nat min_length \<le> l"
      using best by blast
    ultimately show ?thesis
      using res s by simp
  qed
qed

lemma overlap_longest_example:
  "is_overlap ''ATGCAAT'' ''CAATCCC'' 4 \<and> overlap ''ATGCAAT'' ''CAATCCC'' 2 = 4"
  using overlap_longest [of 2 "''CAATCCC''" "''ATGCAAT''"]
  by (simp add: is_overlap_def overlap_example)

text \<open>
  Outside that range the result differs: a negative \<open>min_length\<close> shortens the prefix
  searched for from the right, so that the overlap B of AB and BCD is not found.
\<close>

lemma overlap_negative_min_length:
  "is_overlap ''AB'' ''BCD'' 1 \<and> overlap ''AB'' ''BCD'' (- 1) = 0"
  by (simp add: is_overlap_def) code_simp

end
